theory Spec2Isabelle
  imports Main "HOL-Library.Sublist"
begin

section \<open>Python strings\<close>

text \<open>
  The script \<^verbatim>\<open>raspbian-buster-gcc-8-cross-environment-install.py\<close> works on Python
  \<^verbatim>\<open>str\<close> values. They are modelled as \<^typ>\<open>string\<close>; every text the script handles
  (compiler specs, file names of a Debian tree) is taken to be ASCII, one \<^typ>\<open>char\<close> per
  character.
\<close>

text \<open>
  \<^verbatim>\<open>s.replace(old, new)\<close>: every occurrence of \<open>old\<close>, found from left to right and never
  overlapping, is replaced. For an empty \<open>old\<close> Python puts \<open>new\<close> before every character
  and at the end.
\<close>

function replace_str :: "string \<Rightarrow> string \<Rightarrow> string \<Rightarrow> string" where
  "replace_str old new s =
     (if old = [] then new @ concat (map (\<lambda>x. x # new) s)
      else if s = [] then []
      else if prefix old s then new @ replace_str old new (drop (length old) s)
      else hd s # replace_str old new (tl s))"
  by pat_completeness auto
termination
  by (relation "measure (\<lambda>(old, new, s). length s)") auto

declare replace_str.simps [simp del]

text \<open>\<^verbatim>\<open>s.lstrip("/")\<close>: all leading slashes go.\<close>

definition lstrip_slash :: "string \<Rightarrow> string" where
  "lstrip_slash s = dropWhile (\<lambda>x. x = CHR ''/'') s"

text \<open>\<^verbatim>\<open>s * n\<close> for an \<^verbatim>\<open>int\<close> \<open>n\<close>: the empty string when \<open>n \<le> 0\<close>.\<close>

definition repeat_str :: "string \<Rightarrow> int \<Rightarrow> string" where
  "repeat_str s n = concat (replicate (nat n) s)"

text \<open>\<^verbatim>\<open>s.split("/")\<close>: the fields between slashes, empty fields kept.\<close>

fun split_slash :: "string \<Rightarrow> string list" where
  "split_slash [] = [[]]"
| "split_slash (x # xs) =
     (if x = CHR ''/'' then [] # split_slash xs
      else (case split_slash xs of [] \<Rightarrow> [[x]] | f # fs \<Rightarrow> (x # f) # fs))"

text \<open>\<^verbatim>\<open>"/".join(xs)\<close>.\<close>

fun join_slash :: "string list \<Rightarrow> string" where
  "join_slash [] = []"
| "join_slash [x] = x"
| "join_slash (x # y # ys) = x @ CHR ''/'' # join_slash (y # ys)"

section \<open>Regular expressions\<close>

text \<open>
  The two patterns of the script use single characters, the classes \<^verbatim>\<open>.\<close>, \<^verbatim>\<open>\d\<close> and
  \<^verbatim>\<open>\w\<close>, sequence, alternative, the greedy \<^verbatim>\<open>*\<close>, \<^verbatim>\<open>+\<close> and \<^verbatim>\<open>?\<close>, and the
  anchor \<^verbatim>\<open>$\<close>. Without flags \<^verbatim>\<open>.\<close> matches every character but the newline, and
  \<^verbatim>\<open>$\<close> matches at the end of the string and before a newline that ends the string.
\<close>

datatype atom = Any_char | Digit | Word | Lit char

definition is_digit :: "char \<Rightarrow> bool" where
  "is_digit x = (let n = of_char x :: nat in 48 \<le> n \<and> n \<le> 57)"

definition is_word :: "char \<Rightarrow> bool" where
  "is_word x =
     (let n = of_char x :: nat
      in (48 \<le> n \<and> n \<le> 57) \<or> (65 \<le> n \<and> n \<le> 90) \<or> (97 \<le> n \<and> n \<le> 122) \<or> n = 95)"

fun atom_ok :: "atom \<Rightarrow> char \<Rightarrow> bool" where
  "atom_ok Any_char x = (x \<noteq> CHR 0x0A)"
| "atom_ok Digit x = is_digit x"
| "atom_ok Word x = is_word x"
| "atom_ok (Lit a) x = (x = a)"

datatype rx = Atom atom | Seq rx rx | Alt rx rx | Star rx | Eps | Eol

definition Opt :: "rx \<Rightarrow> rx" where
  "Opt r = Alt r Eps"

definition Plus :: "rx \<Rightarrow> rx" where
  "Plus r = Seq r (Star r)"

fun lit :: "string \<Rightarrow> rx" where
  "lit [] = Eps"
| "lit (x # xs) = Seq (Atom (Lit x)) (lit xs)"

text \<open>
  The matcher of \<^verbatim>\<open>re\<close> backtracks. \<open>rx_match r s\<close> lists what is left of \<open>s\<close> after
  each way \<open>r\<close> can match at its start, in the order the backtracking search tries them:
  an alternative tries its left branch first, a greedy repetition tries one more round
  before it stops. A round that consumes nothing ends the repetition.
\<close>

function rx_match :: "rx \<Rightarrow> string \<Rightarrow> string list" where
  "rx_match (Atom a) s = (case s of [] \<Rightarrow> [] | x # xs \<Rightarrow> if atom_ok a x then [xs] else [])"
| "rx_match (Seq r1 r2) s = concat (map (rx_match r2) (rx_match r1 s))"
| "rx_match (Alt r1 r2) s = rx_match r1 s @ rx_match r2 s"
| "rx_match (Star r) s =
     concat (map (\<lambda>t. if length t < length s then rx_match (Star r) t else []) (rx_match r s))
     @ [s]"
| "rx_match Eps s = [s]"
| "rx_match Eol s = (if s = [] \<or> s = [CHR 0x0A] then [s] else [])"
  by pat_completeness auto
termination
  by (relation "measures [\<lambda>(r, s). size r, \<lambda>(r, s). length s]") auto

declare rx_match.simps(4) [simp del]

text \<open>\<^verbatim>\<open>re.match(r, s) is not None\<close>: some match starts at the beginning of \<open>s\<close>.\<close>

definition re_match :: "rx \<Rightarrow> string \<Rightarrow> bool" where
  "re_match r s = (rx_match r s \<noteq> [])"

text \<open>
  \<^verbatim>\<open>re.sub(r, f, s)\<close>: at each position the first match the search finds is taken; the
  matched text \<open>m.group()\<close> goes to \<open>f\<close> and the scan goes on behind it. Where nothing
  matches, the character is copied. (An empty match is replaced and the scan moves one
  character on.)
\<close>

function re_sub :: "rx \<Rightarrow> (string \<Rightarrow> string) \<Rightarrow> string \<Rightarrow> string" where
  "re_sub r f s =
     (case rx_match r s of
        [] \<Rightarrow> (case s of [] \<Rightarrow> [] | x # xs \<Rightarrow> x # re_sub r f xs)
      | t # _ \<Rightarrow>
          if length t < length s then f (take (length s - length t) s) @ re_sub r f t
          else f [] @ (case s of [] \<Rightarrow> [] | x # xs \<Rightarrow> x # re_sub r f xs))"
  by pat_completeness auto
termination
  by (relation "measure (\<lambda>(r, f, s). length s)") auto

declare re_sub.simps [simp del]

text \<open>\<^verbatim>\<open>re.findall(r, s)\<close>: the matched texts that \<^verbatim>\<open>re.sub\<close> hands to its function.\<close>

function re_findall :: "rx \<Rightarrow> string \<Rightarrow> string list" where
  "re_findall r s =
     (case rx_match r s of
        [] \<Rightarrow> (case s of [] \<Rightarrow> [] | x # xs \<Rightarrow> re_findall r xs)
      | t # _ \<Rightarrow>
          if length t < length s then take (length s - length t) s # re_findall r t
          else [] # (case s of [] \<Rightarrow> [] | x # xs \<Rightarrow> re_findall r xs))"
  by pat_completeness auto
termination
  by (relation "measure (\<lambda>(r, s). length s)") auto

declare re_findall.simps [simp del]

text \<open>
  \<^verbatim>\<open>re.search(r, s)\<close>: the leftmost match, given as the text before it, the matched text
  and the text behind it.
\<close>

fun re_search :: "rx \<Rightarrow> string \<Rightarrow> (string \<times> string \<times> string) option" where
  "re_search r s =
     (case rx_match r s of
        t # _ \<Rightarrow> Some ([], take (length s - length t) s, t)
      | [] \<Rightarrow>
          (case s of
             [] \<Rightarrow> None
           | x # xs \<Rightarrow>
               (case re_search r xs of
                  None \<Rightarrow> None
                | Some (pre, m, post) \<Rightarrow> Some (x # pre, m, post))))"

declare re_search.simps [simp del]

text \<open>
  \<^verbatim>\<open>r".*(?:(?:\.so(?:\.\d+)?)|(?:\.a))$"\<close>, the pattern of \<^verbatim>\<open>fix_absolute_links\<close>, in
  three pieces: \<^verbatim>\<open>\.\d+\<close>, then \<^verbatim>\<open>(?:(?:\.so(?:\.\d+)?)|(?:\.a))$\<close>, then the whole.
\<close>

definition digit_suffix_rx :: rx where
  "digit_suffix_rx = Seq (Atom (Lit CHR ''.'')) (Plus (Atom Digit))"

definition link_tail_rx :: rx where
  "link_tail_rx = Seq (Alt (Seq (lit ''.so'') (Opt digit_suffix_rx)) (lit ''.a'')) Eol"

definition link_name_rx :: rx where
  "link_name_rx = Seq (Star (Atom Any_char)) link_tail_rx"

text \<open>\<^verbatim>\<open>r"\w+\.o"\<close>, the pattern of \<^verbatim>\<open>write_gcc_specs\<close>.\<close>

definition object_rx :: rx where
  "object_rx = Seq (Plus (Atom Word)) (lit ''.o'')"

section \<open>pathlib\<close>

text \<open>
  A \<^verbatim>\<open>PurePosixPath\<close> is its root (\<^verbatim>\<open>''\<close>, \<^verbatim>\<open>'/'\<close> or \<^verbatim>\<open>'//'\<close>) and its names.
  Parsing splits at slashes and drops empty names and \<^verbatim>\<open>.\<close>; exactly two leading
  slashes are kept as the root \<^verbatim>\<open>'//'\<close>, any other number of them is the root \<^verbatim>\<open>'/'\<close>.
\<close>

record posix_path =
  anchor :: string
  names :: "string list"

definition splitroot :: "string \<Rightarrow> string \<times> string" where
  "splitroot part =
     (if part \<noteq> [] \<and> hd part = CHR ''/'' then
        (let stripped = lstrip_slash part
         in if length part - length stripped = 2 then (''//'', stripped) else (''/'', stripped))
      else ([], part))"

definition Path :: "string \<Rightarrow> posix_path" where
  "Path s =
     (let (rt, rel) = splitroot s
      in \<lparr>anchor = rt, names = filter (\<lambda>x. x \<noteq> [] \<and> x \<noteq> ''.'') (split_slash rel)\<rparr>)"

definition path_str :: "posix_path \<Rightarrow> string" where
  "path_str p =
     (if anchor p = [] \<and> names p = [] then ''.'' else anchor p @ join_slash (names p))"

definition is_absolute :: "posix_path \<Rightarrow> bool" where
  "is_absolute p = (anchor p \<noteq> [])"

definition parent :: "posix_path \<Rightarrow> posix_path" where
  "parent p = p\<lparr>names := butlast (names p)\<rparr>"

definition parts :: "posix_path \<Rightarrow> string list" where
  "parts p = (if anchor p = [] then names p else anchor p # names p)"

definition path_name :: "posix_path \<Rightarrow> string" where
  "path_name p = (if names p = [] then [] else last (names p))"

definition child :: "posix_path \<Rightarrow> string \<Rightarrow> posix_path" where
  "child p n = p\<lparr>names := names p @ [n]\<rparr>"

section \<open>The relativizer of \<^verbatim>\<open>fix_absolute_links\<close>\<close>

definition chroot_dir :: string where
  "chroot_dir = ''/var/chroot/raspbian_buster_armhf''"

text \<open>
  \<^verbatim>\<open>"../"*(len(Path(str(path).replace("/var/chroot/raspbian_buster_armhf","")).parent.parts)-1)
      + str(link_target).lstrip("/")\<close>
\<close>

definition rel_link_target :: "posix_path \<Rightarrow> posix_path \<Rightarrow> string" where
  "rel_link_target path link_target =
     repeat_str ''../''
       (int (length (parts (parent (Path (replace_str chroot_dir [] (path_str path)))))) - 1)
     @ lstrip_slash (path_str link_target)"

text \<open>
  A name as a directory lists it: not empty, without a slash, and neither \<^verbatim>\<open>.\<close> nor
  \<^verbatim>\<open>..\<close>.
\<close>

definition proper_name :: "string \<Rightarrow> bool" where
  "proper_name n = (n \<noteq> [] \<and> n \<noteq> ''.'' \<and> n \<noteq> ''..'' \<and> CHR ''/'' \<notin> set n)"

text \<open>
  What a path denotes when it is read name by name from \<^verbatim>\<open>/\<close>, as the specification
  puts it for the relativizer ("normalizing \<^verbatim>\<open>..\<close> segments"): an empty name and
  \<^verbatim>\<open>.\<close> change nothing, \<^verbatim>\<open>..\<close> drops the last name.
\<close>

definition norm_step :: "string list \<Rightarrow> string \<Rightarrow> string list" where
  "norm_step acc x =
     (if x = [] \<or> x = ''.'' then acc else if x = ''..'' then butlast acc else acc @ [x])"

definition normpath :: "string list \<Rightarrow> string list" where
  "normpath xs = foldl norm_step [] xs"

section \<open>The specs rewriter: the placeholder\<close>

definition ld_search_paths :: string where
  "ld_search_paths =
     ''-L/var/chroot/raspbian_buster_armhf/lib -L/var/chroot/raspbian_buster_armhf/lib/arm-linux-gnueabihf ''
     @ ''-L/var/chroot/raspbian_buster_armhf/usr/lib -L/var/chroot/raspbian_buster_armhf/usr/lib/arm-linux-gnueabihf ''
     @ ''-L/var/chroot/raspbian_buster_armhf/usr/lib/arm-linux-gnueabihf ''
     @ ''-L/var/chroot/raspbian_buster_armhf/usr/lib/gcc/arm-linux-gnueabihf/8''"

text \<open>\<^verbatim>\<open>specs = specs.replace("%D", ld_search_paths)\<close>\<close>

definition substitute_search_paths :: "string \<Rightarrow> string" where
  "substitute_search_paths specs = replace_str ''%D'' ld_search_paths specs"

section \<open>The filesystem\<close>

text \<open>
  What the script reads from the disk is a tree: a file, a symbolic link with its target
  as \<^verbatim>\<open>os.readlink\<close> returns it, or a directory with its entries in the order
  \<^verbatim>\<open>os.scandir\<close> lists them. The tree is the host's whole file system, from \<^verbatim>\<open>/\<close>; the
  chroot is the directory \<^verbatim>\<open>/var/chroot/raspbian_buster_armhf\<close> in it.
\<close>

datatype node = File | Symlink string | Dir "(string \<times> node) list"

fun get_node :: "node \<Rightarrow> string list \<Rightarrow> node option" where
  "get_node n [] = Some n"
| "get_node n (x # xs) =
     (case n of
        Dir es \<Rightarrow> (case map_of es x of None \<Rightarrow> None | Some m \<Rightarrow> get_node m xs)
      | _ \<Rightarrow> None)"

text \<open>
  Path resolution as the kernel does it for \<^verbatim>\<open>stat\<close> and \<^verbatim>\<open>opendir\<close>: from the
  directory \<open>cur\<close> (given by its names from \<^verbatim>\<open>/\<close>, no link among them) the names are
  walked one by one; a symbolic link is replaced by its target, from \<^verbatim>\<open>/\<close> when the
  target is absolute. The kernel follows at most 40 links in one resolution.
\<close>

function resolve :: "nat \<Rightarrow> node \<Rightarrow> string list \<Rightarrow> string list \<Rightarrow> string list option" where
  "resolve fuel fs cur [] = Some cur"
| "resolve fuel fs cur (x # xs) =
     (if x = [] \<or> x = ''.'' then resolve fuel fs cur xs
      else if x = ''..'' then resolve fuel fs (butlast cur) xs
      else (case get_node fs (cur @ [x]) of
              None \<Rightarrow> None
            | Some File \<Rightarrow> if xs = [] then Some (cur @ [x]) else None
            | Some (Dir es) \<Rightarrow> resolve fuel fs (cur @ [x]) xs
            | Some (Symlink t) \<Rightarrow>
                (case fuel of
                   0 \<Rightarrow> None
                 | Suc k \<Rightarrow>
                     resolve k fs (if is_absolute (Path t) then [] else cur)
                       (split_slash t @ xs))))"
  by pat_completeness auto
termination
  by (relation "measures [\<lambda>(fuel, fs, cur, xs). fuel, \<lambda>(fuel, fs, cur, xs). length xs]") auto

definition realpath :: "node \<Rightarrow> posix_path \<Rightarrow> string list option" where
  "realpath fs p = resolve 40 fs [] (names p)"

text \<open>\<^verbatim>\<open>Path.exists()\<close>, \<^verbatim>\<open>Path.is_file()\<close> and \<^verbatim>\<open>Path.is_dir()\<close> follow links.\<close>

definition path_exists :: "node \<Rightarrow> posix_path \<Rightarrow> bool" where
  "path_exists fs p = (realpath fs p \<noteq> None)"

definition is_file :: "node \<Rightarrow> posix_path \<Rightarrow> bool" where
  "is_file fs p =
     (case realpath fs p of None \<Rightarrow> False | Some q \<Rightarrow> get_node fs q = Some File)"

text \<open>
  \<^verbatim>\<open>os.scandir(p)\<close>: the directory that \<open>p\<close> resolves to, as its real location and its
  entries; nothing when \<open>p\<close> is no directory.
\<close>

definition scandir :: "node \<Rightarrow> posix_path \<Rightarrow> (string list \<times> (string \<times> node) list) option" where
  "scandir fs p =
     (case realpath fs p of
        None \<Rightarrow> None
      | Some q \<Rightarrow> (case get_node fs q of Some (Dir es) \<Rightarrow> Some (q, es) | _ \<Rightarrow> None))"

text \<open>\<^verbatim>\<open>Path.is_symlink()\<close> does not follow the link; \<^verbatim>\<open>os.readlink\<close> reads its target.\<close>

fun is_symlink :: "node \<Rightarrow> bool" where
  "is_symlink (Symlink t) = True"
| "is_symlink _ = False"

fun readlink :: "node \<Rightarrow> string" where
  "readlink (Symlink t) = t"
| "readlink _ = []"

subsection \<open>\<^verbatim>\<open>Path.rglob\<close>\<close>

text \<open>
  \<^verbatim>\<open>rglob(pattern)\<close> of pathlib (Python 3.7 to 3.11) visits the start directory and then,
  depth first and in \<^verbatim>\<open>scandir\<close> order, every directory below it that is not a symbolic
  link (\<^verbatim>\<open>_iterate_directories\<close>). In each visited directory the pattern selects:
  \<^verbatim>\<open>*\<close> selects every entry; a name without wildcards selects the path of that name when it
  exists. Each visited directory is kept with the path it was reached by and its real
  location.
\<close>

function iterate_subdirs ::
  "posix_path \<Rightarrow> string list \<Rightarrow> (string \<times> node) list
    \<Rightarrow> (posix_path \<times> string list \<times> (string \<times> node) list) list" where
  "iterate_subdirs p q [] = []"
| "iterate_subdirs p q ((n, x) # es) =
     (case x of
        Dir sub \<Rightarrow> (child p n, q @ [n], sub) # iterate_subdirs (child p n) (q @ [n]) sub
      | _ \<Rightarrow> [])
     @ iterate_subdirs p q es"
  by pat_completeness auto
termination
  by (relation "measure (\<lambda>(p, q, es). size_list (size_prod (\<lambda>_. 0) size) es)") auto

definition iterate_directories ::
  "node \<Rightarrow> posix_path \<Rightarrow> (posix_path \<times> string list \<times> (string \<times> node) list) list" where
  "iterate_directories fs start =
     (case scandir fs start of
        None \<Rightarrow> []
      | Some (q, es) \<Rightarrow> (start, q, es) # iterate_subdirs start q es)"

definition select_wildcard ::
  "posix_path \<times> string list \<times> (string \<times> node) list \<Rightarrow> (posix_path \<times> node) list" where
  "select_wildcard d = (case d of (p, q, es) \<Rightarrow> map (\<lambda>(n, x). (child p n, x)) es)"

definition select_precise ::
  "node \<Rightarrow> string \<Rightarrow> posix_path \<times> string list \<times> (string \<times> node) list \<Rightarrow> posix_path list" where
  "select_precise fs name d =
     (case d of (p, q, es) \<Rightarrow> if resolve 40 fs q [name] \<noteq> None then [child p name] else [])"

text \<open>\<^verbatim>\<open>start.rglob("*")\<close>: each path comes with the entry it names.\<close>

definition rglob_all :: "node \<Rightarrow> posix_path \<Rightarrow> (posix_path \<times> node) list" where
  "rglob_all fs start = concat (map select_wildcard (iterate_directories fs start))"

text \<open>\<^verbatim>\<open>start.rglob(name)\<close> for a name without wildcards.\<close>

definition rglob_name :: "node \<Rightarrow> posix_path \<Rightarrow> string \<Rightarrow> posix_path list" where
  "rglob_name fs start name = concat (map (select_precise fs name) (iterate_directories fs start))"

section \<open>Running the script\<close>

text \<open>
  The script acts on the world by shell commands (\<^verbatim>\<open>c\<close>), by starting the compiler
  (\<^verbatim>\<open>subprocess.Popen\<close>) and by writing files under \<^verbatim>\<open>/tmp\<close>. A run is the list of these
  events in the order they happen. The bookkeeping event \<open>Enter\<close> marks where \<^verbatim>\<open>main\<close>
  calls one of its six steps; what the script prints is left out.
\<close>

datatype stage = Host_deps | Chroot | Directories | Descriptor | Specs | Symlinks

datatype event = Enter stage | Sh string | Popen "string list" | Save string string

datatype error = CalledProcessError int string | OSError

text \<open>
  What the script cannot decide itself comes from the environment: the exit status of a
  shell command, the disk, the name of the effective user and the output of the
  compiler (none when it cannot be started). The first two depend on what has happened
  so far.
\<close>

record env =
  exit_status :: "event list \<Rightarrow> string \<Rightarrow> int"
  disk :: "event list \<Rightarrow> node"
  pw_name :: string
  dumpspecs :: "string option"

type_synonym run = "event list \<Rightarrow> event list \<times> error option"

text \<open>
  \<^verbatim>\<open>def c(cmd): subprocess.check_call(cmd, shell=True)\<close> raises \<^verbatim>\<open>CalledProcessError\<close>
  when the command exits with a status other than 0. (The constant is named \<open>c_sh\<close>: a
  constant \<open>c\<close> would capture every variable of that name.)
\<close>

definition c_sh :: "env \<Rightarrow> string \<Rightarrow> run" where
  "c_sh e cmd tr =
     (let st = exit_status e tr cmd
      in (tr @ [Sh cmd], if st = 0 then None else Some (CalledProcessError st cmd)))"

definition save :: "string \<Rightarrow> string \<Rightarrow> run" where
  "save name text tr = (tr @ [Save name text], None)"

definition enter :: "stage \<Rightarrow> run" where
  "enter st tr = (tr @ [Enter st], None)"

text \<open>Statements in sequence: an exception ends the run where it is raised.\<close>

fun seq :: "run list \<Rightarrow> run" where
  "seq [] tr = (tr, None)"
| "seq (f # fs) tr = (case f tr of (tr', None) \<Rightarrow> seq fs tr' | (tr', Some err) \<Rightarrow> (tr', Some err))"

definition getuser :: "env \<Rightarrow> string" where
  "getuser e = pw_name e"

definition install_host_deps :: "env \<Rightarrow> run" where
  "install_host_deps e =
     seq [c_sh e ''sudo apt update'',
          c_sh e (''sudo apt install -y gcc-8-arm-linux-gnueabihf g++-8-arm-linux-gnueabihf cmake build-essential''
                  @ ''qemu-user-static binfmt-support debootstrap schroot'')]"

definition make_dirs :: "env \<Rightarrow> run" where
  "make_dirs e =
     seq [c_sh e ''sudo mkdir -p /opt/toolchains'',
          c_sh e ''sudo mkdir -p /var/chroot'']"

definition schroot_config :: string where
  \<open>schroot_config =
     ''\<newline>''
     @ ''[raspbian_buster_armhf]\<newline>''
     @ ''description=Raspbian Buster armhf chroot\<newline>''
     @ ''type=directory\<newline>''
     @ ''directory=/var/chroot/raspbian_buster_armhf\<newline>''
     @ ''users={user}\<newline>''
     @ ''root-groups=root,{user}\<newline>''\<close>

definition install_chroot :: "env \<Rightarrow> run" where
  "install_chroot e =
     seq [(\<lambda>tr.
            if \<not> is_file (disk e tr) (Path ''/usr/share/keyrings/raspbian-archive-keyring.gpg'')
            then seq [c_sh e ''cd /tmp && wget http://archive.raspbian.org/raspbian/pool/main/r/raspbian-archive-keyring/raspbian-archive-keyring_20120528.2_all.deb'',
                      c_sh e ''sudo dpkg -i /tmp/raspbian-archive-keyring_20120528.2_all.deb''] tr
            else (tr, None)),
          (\<lambda>tr.
            if \<not> path_exists (disk e tr) (Path ''/var/chroot/raspbian_buster_armhf/bin/bash'')
            then seq [c_sh e ''sudo debootstrap --arch armhf --foreign --keyring=/usr/share/keyrings/raspbian-archive-keyring.gpg buster /var/chroot/raspbian_buster_armhf http://ftp.acc.umu.se/mirror/raspbian/raspbian/'',
                      c_sh e ''sudo cp /usr/bin/qemu-arm* /var/chroot/raspbian_buster_armhf/usr/bin'',
                      c_sh e ''sudo chroot /var/chroot/raspbian_buster_armhf /debootstrap/debootstrap --second-stage''] tr
            else (tr, None)),
          save ''/tmp/raspbian_buster_armhf'' (replace_str ''{user}'' (getuser e) schroot_config),
          c_sh e ''sudo chown root:root /tmp/raspbian_buster_armhf'',
          c_sh e ''sudo mv /tmp/raspbian_buster_armhf /etc/schroot/chroot.d/'',
          c_sh e ''sudo schroot -c raspbian_buster_armhf -- apt-get update'',
          c_sh e ''sudo schroot -c raspbian_buster_armhf -- apt-get install -y build-essential g++ gcc cmake'']"

text \<open>
  \<^verbatim>\<open>replace_with_path\<close>: the first path that the search of the chroot for the matched
  name yields, as a string; the matched name itself when the search yields nothing
  (\<^verbatim>\<open>StopIteration\<close>).
\<close>

definition replace_with_path :: "node \<Rightarrow> string \<Rightarrow> string" where
  "replace_with_path fs obj =
     (case rglob_name fs (Path chroot_dir) obj of
        [] \<Rightarrow> obj
      | p # _ \<Rightarrow> path_str p)"

text \<open>\<^verbatim>\<open>specs = re.sub(r"\w+\.o", replace_with_path, specs)\<close>\<close>

definition resolve_objects :: "node \<Rightarrow> string \<Rightarrow> string" where
  "resolve_objects fs specs = re_sub object_rx (replace_with_path fs) specs"

definition write_gcc_specs :: "env \<Rightarrow> run" where
  "write_gcc_specs e tr =
     (let tr1 = tr @ [Popen [''/usr/bin/arm-linux-gnueabihf-g++-8'', ''-dumpspecs'']]
      in case dumpspecs e of
           None \<Rightarrow> (tr1, Some OSError)
         | Some out \<Rightarrow>
             seq [save ''/tmp/gcc-8-armv6-specs.txt''
                    (resolve_objects (disk e tr1) (substitute_search_paths out)),
                  c_sh e ''sudo mv /tmp/gcc-8-armv6-specs.txt /opt/toolchains/''] tr1)"

definition cmake_toolchain_text :: string where
  \<open>cmake_toolchain_text =
     ''\<newline>''
     @ ''set(CMAKE_SYSTEM_NAME Linux)\<newline>''
     @ ''set(CMAKE_SYSTEM_PROCESSOR arm)\<newline>''
     @ ''\<newline>''
     @ ''set(CMAKE_SYSROOT /var/chroot/raspbian_buster_armhf)\<newline>''
     @ ''\<newline>''
     @ ''set(CMAKE_C_COMPILER /usr/bin/arm-linux-gnueabihf-gcc-8)\<newline>''
     @ ''set(CMAKE_CXX_COMPILER /usr/bin/arm-linux-gnueabihf-g++-8)\<newline>''
     @ ''set(CMAKE_C_FLAGS " -mcpu=arm1176jzf-s -mtune=arm1176jzf-s  -isystem=/var/chroot''
     @ ''/raspbian_buster_armhf  -march=armv6 -mfpu=vfp -mfloat-abi=hard -marm -D__GCC_HA''
     @ ''VE_SYNC_COMPARE_AND_SWAP_1 -D__GCC_HAVE_SYNC_COMPARE_AND_SWAP_2 -D__GCC_HAVE_SYN''
     @ ''C_COMPARE_AND_SWAP_8 -D__ARM_FEATURE_LDREX=4 -D__GCC_ATOMIC_BOOL_LOCK_FREE=1 -D_''
     @ ''_GCC_ATOMIC_CHAR_LOCK_FREE=1 -D__GCC_ATOMIC_CHAR16_T_LOCK_FREE=1 -D__GCC_ATOMIC_''
     @ ''LLONG_LOCK_FREE=1 -D__GCC_ATOMIC_SHORT_LOCK_FREE=1 -D__pic__ -D__PIC__ -D__pie__''
     @ '' -D__PIE__ -Wl,--sysroot=/var/chroot/raspbian_buster_armhf -specs=/opt/toolchain''
     @ ''s/gcc-8-armv6-specs.txt  " )\<newline>''
     @ ''set(CMAKE_CXX_FLAGS "-mcpu=arm1176jzf-s -mtune=arm1176jzf-s  -isystem=/var/chroo''
     @ ''t/raspbian_buster_armhf  -march=armv6 -mfpu=vfp -mfloat-abi=hard -marm -D__GCC_H''
     @ ''AVE_SYNC_COMPARE_AND_SWAP_1 -D__GCC_HAVE_SYNC_COMPARE_AND_SWAP_2 -D__GCC_HAVE_SY''
     @ ''NC_COMPARE_AND_SWAP_8 -D__ARM_FEATURE_LDREX=4 -D__GCC_ATOMIC_BOOL_LOCK_FREE=1 -D''
     @ ''__GCC_ATOMIC_CHAR_LOCK_FREE=1 -D__GCC_ATOMIC_CHAR16_T_LOCK_FREE=1 -D__GCC_ATOMIC''
     @ ''_LLONG_LOCK_FREE=1 -D__GCC_ATOMIC_SHORT_LOCK_FREE=1 -D__pic__ -D__PIC__ -D__pie_''
     @ ''_ -D__PIE__  -Wl,--sysroot=/var/chroot/raspbian_buster_armhf -specs=/opt/toolcha''
     @ ''ins/gcc-8-armv6-specs.txt " )\<newline>''
     @ ''\<newline>''
     @ ''\<newline>''
     @ ''set(CMAKE_FIND_ROOT_PATH_MODE_PROGRAM NEVER)\<newline>''
     @ ''set(CMAKE_FIND_ROOT_PATH_MODE_LIBRARY ONLY)\<newline>''
     @ ''set(CMAKE_FIND_ROOT_PATH_MODE_INCLUDE ONLY)\<newline>''
     @ ''set(CMAKE_FIND_ROOT_PATH_MODE_PACKAGE ONLY)\<newline>''
     @ ''\<newline>''
     @ ''\<newline>''\<close>

definition write_cmake_toolchain :: "env \<Rightarrow> run" where
  "write_cmake_toolchain e =
     seq [save ''/tmp/gcc-8-armv6.cmake'' cmake_toolchain_text,
          c_sh e ''sudo mv /tmp/gcc-8-armv6.cmake /opt/toolchains/'']"

subsection \<open>\<^verbatim>\<open>fix_absolute_links\<close>\<close>

text \<open>
  The body of the loop, for the path \<open>path\<close> that names the entry \<open>x\<close>. The two
  \<^verbatim>\<open>continue\<close> guards at its head decide whether the entry is looked at any further.
\<close>

definition eligible :: "posix_path \<Rightarrow> node \<Rightarrow> bool" where
  "eligible path x = (is_symlink x \<and> re_match link_name_rx (path_name path))"

definition link_command :: "posix_path \<Rightarrow> node \<Rightarrow> string option" where
  "link_command path x =
     (if \<not> eligible path x then None
      else let link_target = Path (readlink x)
           in if \<not> is_absolute link_target then None
              else Some (''cd '' @ path_str (parent path) @ '' && sudo ln -fs ''
                         @ rel_link_target path link_target @ '' '' @ path_name path))"

text \<open>
  The loop runs over \<^verbatim>\<open>Path("/var/chroot/raspbian_buster_armhf/lib").rglob("*")\<close>. The
  entries are taken as the disk holds them when the loop starts: a command of the loop
  replaces the one link it names, which the loop has read before.
\<close>

definition link_commands :: "node \<Rightarrow> string list" where
  "link_commands fs =
     List.map_filter (\<lambda>(path, x). link_command path x)
       (rglob_all fs (Path (chroot_dir @ ''/lib'')))"

definition fix_absolute_links :: "env \<Rightarrow> run" where
  "fix_absolute_links e tr = seq (map (c_sh e) (link_commands (disk e tr))) tr"

subsection \<open>\<^verbatim>\<open>main\<close>\<close>

definition main :: "env \<Rightarrow> event list \<times> error option" where
  "main e =
     seq [enter Host_deps, install_host_deps e,
          enter Chroot, install_chroot e,
          enter Directories, make_dirs e,
          enter Descriptor, write_cmake_toolchain e,
          enter Specs, write_gcc_specs e,
          enter Symlinks, fix_absolute_links e] []"

subsection \<open>What a run shows\<close>

text \<open>The steps of \<^verbatim>\<open>main\<close> that a run has entered, in the order of entering.\<close>

fun entered :: "event list \<Rightarrow> stage list" where
  "entered [] = []"
| "entered (Enter st # tr) = st # entered tr"
| "entered (_ # tr) = entered tr"

text \<open>
  In a run that is \<open>clean\<close> every shell command has ended with status 0. A run
  \<open>ends_in\<close> an error when it was clean up to its last event and that event is the
  shell command whose status raised the error, or the start of a compiler that could
  not be started. A piece of the script \<open>keeps_order\<close> when, begun after a clean run,
  it only appends events, enters no step of \<^verbatim>\<open>main\<close>, and leaves a clean run or a run
  that ends in the error it raises.
\<close>

definition clean :: "env \<Rightarrow> event list \<Rightarrow> bool" where
  "clean e tr = (\<forall>i<length tr. \<forall>cmd. tr ! i = Sh cmd \<longrightarrow> exit_status e (take i tr) cmd = 0)"

definition ends_in :: "env \<Rightarrow> event list \<Rightarrow> error \<Rightarrow> bool" where
  "ends_in e tr err =
     (tr \<noteq> [] \<and> clean e (butlast tr)
      \<and> ((\<exists>cmd. last tr = Sh cmd \<and> exit_status e (butlast tr) cmd \<noteq> 0
                \<and> err = CalledProcessError (exit_status e (butlast tr) cmd) cmd)
         \<or> (\<exists>args. last tr = Popen args \<and> err = OSError)))"

definition keeps_order :: "env \<Rightarrow> run \<Rightarrow> bool" where
  "keeps_order e f =
     (\<forall>tr. clean e tr \<longrightarrow>
        (case f tr of
           (tr', r) \<Rightarrow>
             prefix tr tr' \<and> entered tr' = entered tr
             \<and> (case r of None \<Rightarrow> clean e tr' | Some err \<Rightarrow> ends_in e tr' err)))"

section \<open>Sample disks\<close>

text \<open>A chroot with \<^verbatim>\<open>crt1.o\<close> in two directories, \<^verbatim>\<open>usr/lib\<close> listed first.\<close>

definition disk_two_crt1 :: node where
  "disk_two_crt1 = Dir [(''var'', Dir [(''chroot'', Dir [(''raspbian_buster_armhf'', Dir [
      (''usr'', Dir [(''lib'', Dir [(''crt1.o'', File)]), (''lib32'', Dir [(''crt1.o'', File)])])])])])]"

text \<open>A chroot whose links below \<^verbatim>\<open>lib\<close> need no fixing.\<close>

definition disk_fixed :: node where
  "disk_fixed = Dir [(''var'', Dir [(''chroot'', Dir [(''raspbian_buster_armhf'', Dir [
      (''lib'', Dir [(''libz.so'', Symlink ''../lib/libz.so.1''), (''libz.so.1'', File),
                     (''modules'', Symlink ''/usr/lib/modules'')])])])])]"

text \<open>
  A chroot with merged \<^verbatim>\<open>/usr\<close>, as \<^verbatim>\<open>debootstrap\<close> lays it out: \<^verbatim>\<open>lib\<close> is a symbolic
  link to \<^verbatim>\<open>usr/lib\<close>, and the libraries are in \<^verbatim>\<open>usr/lib\<close>.
\<close>

definition disk_merged_usr :: node where
  "disk_merged_usr = Dir [(''var'', Dir [(''chroot'', Dir [(''raspbian_buster_armhf'', Dir [
      (''lib'', Symlink ''usr/lib''),
      (''usr'', Dir [(''lib'', Dir [(''libz.so'', Symlink ''/lib/libz.so.1''),
                                    (''libz.so.1'', File)])])])])])]"

text \<open>
  Two chroots with the same directory \<^verbatim>\<open>lib\<close>; the second has a library link with an
  absolute target in \<^verbatim>\<open>usr/lib\<close> as well.
\<close>

definition disk_plain_lib :: node where
  "disk_plain_lib = Dir [(''var'', Dir [(''chroot'', Dir [(''raspbian_buster_armhf'', Dir [
      (''lib'', Dir [(''libz.so'', Symlink ''/lib/libz.so.1''), (''libz.so.1'', File)]),
      (''usr'', Dir [(''lib'', Dir [])])])])])]"

definition disk_plain_lib_usr :: node where
  "disk_plain_lib_usr = Dir [(''var'', Dir [(''chroot'', Dir [(''raspbian_buster_armhf'', Dir [
      (''lib'', Dir [(''libz.so'', Symlink ''/lib/libz.so.1''), (''libz.so.1'', File)]),
      (''usr'', Dir [(''lib'', Dir [(''libm.so'', Symlink ''/lib/libm.so.6'')])])])])])]"

section \<open>Properties: strings\<close>

lemma replace_str_Nil [simp]: "old \<noteq> [] \<Longrightarrow> replace_str old new [] = []"
  by (simp add: replace_str.simps)

lemma replace_str_hit:
  "old \<noteq> [] \<Longrightarrow> replace_str old new (old @ s) = new @ replace_str old new s"
  by (subst replace_str.simps) simp

lemma replace_str_miss:
  "old \<noteq> [] \<Longrightarrow> \<not> prefix old (x # xs) \<Longrightarrow>
   replace_str old new (x # xs) = x # replace_str old new xs"
  by (subst replace_str.simps) simp

lemma replace_str_absent:
  "old \<noteq> [] \<Longrightarrow> \<not> sublist old s \<Longrightarrow> replace_str old new s = s"
proof (induction s)
  case Nil
  then show ?case by simp
next
  case (Cons x xs)
  from Cons.prems have np: "\<not> prefix old (x # xs)" and ns: "\<not> sublist old xs"
    by (auto simp: sublist_Cons_right)
  with Cons show ?case by (simp add: replace_str_miss)
qed

text \<open>
  Up to the first occurrence the text is copied, the occurrence becomes \<open>new\<close>, and the
  scan goes on behind it.
\<close>

lemma replace_str_first:
  "old \<noteq> [] \<Longrightarrow> \<not> sublist old (pre @ butlast old) \<Longrightarrow>
   replace_str old new (pre @ old @ post) = pre @ new @ replace_str old new post"
proof (induction pre)
  case Nil
  then show ?case by (simp add: replace_str_hit)
next
  case (Cons x xs)
  have np: "\<not> prefix old (x # xs @ old @ post)"
  proof
    assume p: "prefix old (x # xs @ old @ post)"
    have "length old \<le> length ((x # xs) @ butlast old)" by simp
    moreover have "(x # xs @ old @ post) = ((x # xs) @ butlast old) @ (last old # post)"
      using Cons.prems(1) by simp
    ultimately have "prefix old ((x # xs) @ butlast old)"
      using p by (metis prefix_length_prefix prefixI)
    then show False using Cons.prems(2) by auto
  qed
  have ns: "\<not> sublist old (xs @ butlast old)"
    using Cons.prems(2) by (auto simp: sublist_Cons_right)
  show ?case using Cons.IH[OF Cons.prems(1) ns] np Cons.prems(1)
    by (simp add: replace_str_miss)
qed

lemma placeholder_not_across: "sublist ''%D'' (pre @ ''%'') \<Longrightarrow> sublist ''%D'' pre"
proof -
  assume a: "sublist ''%D'' (pre @ ''%'')"
  then obtain ps ss where e: "pre @ ''%'' = ps @ ''%D'' @ ss" by (auto simp: sublist_def)
  show ?thesis
  proof (cases ss rule: rev_cases)
    case Nil
    with e have "last (pre @ ''%'') = last (ps @ ''%D'')" by simp
    then show ?thesis by simp
  next
    case (snoc ys y)
    with e have "pre @ ''%'' = (ps @ ''%D'' @ ys) @ [y]" by simp
    then have "pre = ps @ ''%D'' @ ys" by (metis append1_eq_conv)
    then show ?thesis by (auto simp: sublist_def)
  qed
qed

section \<open>Properties: regular expressions\<close>

lemma atom_ok_Digit_eq [simp]: "atom_ok Digit = is_digit"
  by (rule ext) simp

lemma atom_ok_Word_eq [simp]: "atom_ok Word = is_word"
  by (rule ext) simp

lemma rx_match_star_atom:
  "rx_match (Star (Atom a)) s =
     (case s of [] \<Rightarrow> [[]]
      | x # xs \<Rightarrow> if atom_ok a x then rx_match (Star (Atom a)) xs @ [x # xs] else [x # xs])"
  by (subst rx_match.simps(4)) (simp split: list.splits)

lemma rx_match_suffix: "t \<in> set (rx_match r s) \<Longrightarrow> suffix t s"
proof (induction r s arbitrary: t rule: rx_match.induct)
  case (1 a s)
  then show ?case by (auto split: list.splits if_splits simp: suffix_Cons)
next
  case (2 r1 r2 s)
  then show ?case by (auto intro: suffix_order.trans)
next
  case (3 r1 r2 s)
  then show ?case by auto
next
  case (4 r s)
  from "4.prems" consider "t = s" | u where "u \<in> set (rx_match r s)" "length u < length s" "t \<in> set (rx_match (Star r) u)"
    by (subst (asm) rx_match.simps(4)) (auto split: if_splits)
  then show ?case
  proof cases
    case 1
    then show ?thesis by simp
  next
    case 2
    then show ?thesis using "4.IH" by (meson suffix_order.trans)
  qed
next
  case (5 s)
  then show ?case by simp
next
  case (6 s)
  then show ?case by (auto split: if_splits)
qed

lemma rx_match_lit:
  "rx_match (lit l) s = (if prefix l s then [drop (length l) s] else [])"
proof (induction l arbitrary: s)
  case Nil
  then show ?case by simp
next
  case (Cons x xs)
  then show ?case by (cases s) auto
qed

lemma set_rx_match_star_atom:
  "set (rx_match (Star (Atom a)) s) = {drop n s | n. n \<le> length (takeWhile (atom_ok a) s)}"
proof (induction s)
  case Nil
  then show ?case by (subst rx_match_star_atom) simp
next
  case (Cons x xs)
  show ?case
  proof (cases "atom_ok a x")
    case True
    have "{drop n (x # xs) | n. n \<le> Suc (length (takeWhile (atom_ok a) xs))}
        = insert (x # xs) {drop n xs | n. n \<le> length (takeWhile (atom_ok a) xs)}"
      (is "?L = ?R")
    proof (rule set_eqI)
      fix t
      show "t \<in> ?L \<longleftrightarrow> t \<in> ?R"
      proof
        assume "t \<in> ?L"
        then obtain n where n: "t = drop n (x # xs)" "n \<le> Suc (length (takeWhile (atom_ok a) xs))"
          by auto
        then show "t \<in> ?R" by (cases n) auto
      next
        assume "t \<in> ?R"
        then consider "t = x # xs"
          | n where "t = drop n xs" "n \<le> length (takeWhile (atom_ok a) xs)" by auto
        then show "t \<in> ?L"
        proof cases
          case 1
          then show ?thesis by (auto intro: exI[of _ 0])
        next
          case 2
          then show ?thesis by (auto intro: exI[of _ "Suc n"])
        qed
      qed
    qed
    with True Cons show ?thesis by (subst rx_match_star_atom) simp
  next
    case False
    then show ?thesis by (subst rx_match_star_atom) (auto intro: exI[of _ 0])
  qed
qed

lemma word_not_dot [simp]: "\<not> is_word CHR ''.''"
  by (simp add: is_word_def)

lemma object_tail:
  "concat (map (rx_match (lit ''.o'')) (rx_match (Star (Atom Word)) s)) =
     (if prefix ''.o'' (dropWhile is_word s) then [drop 2 (dropWhile is_word s)]
      else [])"
proof (induction s)
  case Nil
  have "rx_match (Star (Atom Word)) [] = [[]]" by (subst rx_match_star_atom) simp
  then show ?case by (simp add: rx_match_lit del: lit.simps)
next
  case (Cons x xs)
  show ?case
  proof (cases "is_word x")
    case True
    then have "x \<noteq> CHR ''.''" by auto
    then have l: "rx_match (lit ''.o'') (x # xs) = []" by (simp add: rx_match_lit del: lit.simps)
    have r: "rx_match (Star (Atom Word)) (x # xs) = rx_match (Star (Atom Word)) xs @ [x # xs]"
      using True by (subst rx_match_star_atom) simp
    show ?thesis using True by (simp add: r l Cons.IH del: lit.simps)
  next
    case False
    have r: "rx_match (Star (Atom Word)) (x # xs) = [x # xs]"
      using False by (subst rx_match_star_atom) simp
    show ?thesis using False by (simp add: r rx_match_lit del: lit.simps)
  qed
qed

lemma rx_match_object:
  "rx_match object_rx s =
     (if takeWhile is_word s \<noteq> [] \<and> prefix ''.o'' (dropWhile is_word s)
      then [drop 2 (dropWhile is_word s)] else [])"
proof (cases s)
  case Nil
  then show ?thesis by (simp add: object_rx_def Plus_def del: lit.simps)
next
  case (Cons x xs)
  show ?thesis
  proof (cases "is_word x")
    case True
    have "rx_match object_rx s
        = concat (map (rx_match (lit ''.o'')) (rx_match (Star (Atom Word)) xs))"
      using True Cons by (simp add: object_rx_def Plus_def del: lit.simps)
    then show ?thesis using True Cons by (simp add: object_tail del: lit.simps)
  next
    case False
    then show ?thesis using Cons by (simp add: object_rx_def Plus_def del: lit.simps)
  qed
qed

text \<open>A match of the object pattern is a run of word characters and \<open>.o\<close>.\<close>

lemma rx_match_object_Cons:
  "rx_match object_rx s = t # ts \<Longrightarrow>
   ts = [] \<and> s = takeWhile is_word s @ ''.o'' @ t \<and> takeWhile is_word s \<noteq> []"
proof -
  assume a: "rx_match object_rx s = t # ts"
  let ?w = "takeWhile is_word s" and ?d = "dropWhile is_word s"
  from a have c: "?w \<noteq> []" "prefix ''.o'' ?d" and t: "t = drop 2 ?d" "ts = []"
    by (auto simp: rx_match_object split: if_splits)
  from c(2) have "?d = ''.o'' @ drop 2 ?d" by (auto simp: prefix_def)
  then have "s = ?w @ ''.o'' @ t" using t(1) by (metis takeWhile_dropWhile_id)
  with c t show ?thesis by simp
qed

lemma rx_match_object_hit:
  "w \<noteq> [] \<Longrightarrow> \<forall>x\<in>set w. is_word x \<Longrightarrow> rx_match object_rx (w @ ''.o'' @ post) = [post]"
proof -
  assume w: "w \<noteq> []" "\<forall>x\<in>set w. is_word x"
  have "takeWhile is_word (w @ ''.o'' @ post) = w"
    using w(2) by simp
  moreover have "dropWhile is_word (w @ ''.o'' @ post) = ''.o'' @ post"
    using w(2) by simp
  ultimately show ?thesis using w(1) by (simp add: rx_match_object)
qed

lemma set_rx_match_Seq:
  "set (rx_match (Seq r1 r2) s) = (\<Union>t\<in>set (rx_match r1 s). set (rx_match r2 t))"
  by simp

text \<open>The numeric suffix leaves nothing behind exactly on a dot and one or more digits.\<close>

lemma digit_suffix_all:
  "[] \<in> set (rx_match digit_suffix_rx v) \<longleftrightarrow>
     (\<exists>ds. ds \<noteq> [] \<and> (\<forall>d\<in>set ds. is_digit d) \<and> v = CHR ''.'' # ds)"
proof (cases v)
  case Nil
  then show ?thesis by (simp add: digit_suffix_rx_def Plus_def)
next
  case (Cons x xs)
  note v = Cons
  show ?thesis
  proof (cases "x = CHR ''.''")
    case False
    then show ?thesis using v by (simp add: digit_suffix_rx_def Plus_def)
  next
    case dot: True
    show ?thesis
    proof (cases xs)
      case Nil
      then show ?thesis using v dot by (simp add: digit_suffix_rx_def Plus_def)
    next
      case (Cons d ds)
      show ?thesis
      proof (cases "is_digit d")
        case False
        then show ?thesis using v dot Cons
          by (auto simp add: digit_suffix_rx_def Plus_def)
      next
        case True
        have "set (rx_match digit_suffix_rx v) = set (rx_match (Star (Atom Digit)) ds)"
          using v dot Cons True by (simp add: digit_suffix_rx_def Plus_def)
        also have "\<dots> = {drop n ds | n. n \<le> length (takeWhile is_digit ds)}"
          using set_rx_match_star_atom [of Digit ds] by simp
        finally have "[] \<in> set (rx_match digit_suffix_rx v)
            \<longleftrightarrow> (\<exists>n. n \<le> length (takeWhile is_digit ds) \<and> drop n ds = [])"
          by auto
        also have "\<dots> \<longleftrightarrow> length ds \<le> length (takeWhile is_digit ds)"
          by (auto intro: exI[of _ "length ds"])
        also have "\<dots> \<longleftrightarrow> takeWhile is_digit ds = ds"
          by (metis length_takeWhile_le le_antisym takeWhile_eq_take take_all order_refl)
        also have "\<dots> \<longleftrightarrow> (\<forall>d\<in>set ds. is_digit d)"
          by (simp add: takeWhile_eq_all_conv)
        finally show ?thesis using v dot Cons True by (auto)
      qed
    qed
  qed
qed

lemma prefix_drop_Nil: "prefix l u \<and> drop (length l) u = [] \<longleftrightarrow> u = l"
  by (auto simp: prefix_def)

lemma rx_match_Seq_nonempty:
  "rx_match (Seq r1 r2) s \<noteq> [] \<longleftrightarrow> (\<exists>t\<in>set (rx_match r1 s). rx_match r2 t \<noteq> [])"
  by (auto simp: concat_eq_Nil_conv)

lemma link_tail_match:
  assumes nl: "CHR 0x0A \<notin> set u"
  shows "rx_match link_tail_rx u \<noteq> [] \<longleftrightarrow>
     u = ''.so'' \<or> u = ''.a'' \<or> (\<exists>ds. ds \<noteq> [] \<and> (\<forall>d\<in>set ds. is_digit d) \<and> u = ''.so.'' @ ds)"
proof -
  let ?A = "Alt (Seq (lit ''.so'') (Opt digit_suffix_rx)) (lit ''.a'')"
  have eol: "rx_match Eol t \<noteq> [] \<longleftrightarrow> t = []" if "t \<in> set (rx_match ?A u)" for t
  proof -
    from that have "suffix t u" by (rule rx_match_suffix)
    then have "set t \<subseteq> set u" by (rule set_mono_suffix)
    with nl have "t \<noteq> [CHR 0x0A]" by auto
    then show ?thesis by simp
  qed
  have "rx_match link_tail_rx u \<noteq> [] \<longleftrightarrow> (\<exists>t\<in>set (rx_match ?A u). rx_match Eol t \<noteq> [])"
    unfolding link_tail_rx_def by (rule rx_match_Seq_nonempty)
  also have "\<dots> \<longleftrightarrow> [] \<in> set (rx_match ?A u)"
    using eol by blast
  also have "\<dots> \<longleftrightarrow> [] \<in> set (rx_match (Seq (lit ''.so'') (Opt digit_suffix_rx)) u)
      \<or> [] \<in> set (rx_match (lit ''.a'') u)"
    by (simp del: lit.simps)
  also have "[] \<in> set (rx_match (lit ''.a'') u) \<longleftrightarrow> u = ''.a''"
    using prefix_drop_Nil [of "''.a''" u] by (auto simp add: rx_match_lit simp del: lit.simps)
  also have "[] \<in> set (rx_match (Seq (lit ''.so'') (Opt digit_suffix_rx)) u)
      \<longleftrightarrow> prefix ''.so'' u \<and> ([] \<in> set (rx_match digit_suffix_rx (drop 3 u)) \<or> drop 3 u = [])"
    by (auto simp add: rx_match_lit Opt_def numeral_3_eq_3 simp del: lit.simps)
  also have "\<dots> \<longleftrightarrow> u = ''.so''
      \<or> (\<exists>ds. ds \<noteq> [] \<and> (\<forall>d\<in>set ds. is_digit d) \<and> u = ''.so.'' @ ds)"
  proof -
    have a: "prefix ''.so'' u \<and> drop 3 u = [] \<longleftrightarrow> u = ''.so''"
      using prefix_drop_Nil [of "''.so''" u] by (auto simp: numeral_3_eq_3)
    have b: "prefix ''.so'' u \<and> [] \<in> set (rx_match digit_suffix_rx (drop 3 u))
        \<longleftrightarrow> (\<exists>ds. ds \<noteq> [] \<and> (\<forall>d\<in>set ds. is_digit d) \<and> u = ''.so.'' @ ds)"
      by (auto simp: digit_suffix_all prefix_def numeral_3_eq_3)
    show ?thesis using a b by blast
  qed
  finally show ?thesis by blast
qed

lemma link_name_match:
  assumes nl: "CHR 0x0A \<notin> set s"
  shows "re_match link_name_rx s \<longleftrightarrow>
     suffix ''.so'' s \<or> suffix ''.a'' s
     \<or> (\<exists>ds. ds \<noteq> [] \<and> (\<forall>d\<in>set ds. is_digit d) \<and> suffix (''.so.'' @ ds) s)"
proof -
  have tw: "takeWhile (atom_ok Any_char) s = s"
    using nl by (auto simp: takeWhile_eq_all_conv)
  have dn: "CHR 0x0A \<notin> set (drop n s)" for n
    using nl by (meson in_set_dropD)
  have "re_match link_name_rx s
      \<longleftrightarrow> (\<exists>t\<in>set (rx_match (Star (Atom Any_char)) s). rx_match link_tail_rx t \<noteq> [])"
    unfolding re_match_def link_name_rx_def by (rule rx_match_Seq_nonempty)
  also have "\<dots> \<longleftrightarrow> (\<exists>n\<le>length s. rx_match link_tail_rx (drop n s) \<noteq> [])"
    unfolding set_rx_match_star_atom tw by auto
  also have "\<dots> \<longleftrightarrow> (\<exists>n\<le>length s. drop n s = ''.so'' \<or> drop n s = ''.a''
      \<or> (\<exists>ds. ds \<noteq> [] \<and> (\<forall>d\<in>set ds. is_digit d) \<and> drop n s = ''.so.'' @ ds))"
    using link_tail_match [OF dn] by simp
  also have "\<dots> \<longleftrightarrow> suffix ''.so'' s \<or> suffix ''.a'' s
     \<or> (\<exists>ds. ds \<noteq> [] \<and> (\<forall>d\<in>set ds. is_digit d) \<and> suffix (''.so.'' @ ds) s)"
  proof -
    have sd: "suffix v s \<longleftrightarrow> (\<exists>n\<le>length s. drop n s = v)" for v
    proof
      assume "suffix v s"
      then obtain p where "s = p @ v" by (auto simp: suffix_def)
      then show "\<exists>n\<le>length s. drop n s = v" by (intro exI[of _ "length p"]) simp
    next
      assume "\<exists>n\<le>length s. drop n s = v"
      then show "suffix v s" by (metis suffix_drop)
    qed
    show ?thesis unfolding sd by blast
  qed
  finally show ?thesis .
qed

lemma rx_match_hd_split:
  "rx_match r s = t # ts \<Longrightarrow> s = take (length s - length t) s @ t"
proof -
  assume "rx_match r s = t # ts"
  then have "t \<in> set (rx_match r s)" by simp
  then have "suffix t s" by (rule rx_match_suffix)
  then obtain p where "s = p @ t" by (auto simp: suffix_def)
  then show ?thesis by simp
qed

lemma re_search_None: "re_search r s = None \<Longrightarrow> re_sub r f s = s"
proof (induction s)
  case Nil
  then show ?case
    by (subst re_sub.simps) (auto simp: re_search.simps [of r "[]"] split: list.splits)
next
  case (Cons x xs)
  from Cons.prems have m: "rx_match r (x # xs) = []" and n: "re_search r xs = None"
    by (auto simp: re_search.simps [of r "x # xs"] split: list.splits option.splits)
  show ?case using m Cons.IH [OF n] by (subst re_sub.simps) simp
qed

lemma re_search_Some:
  "re_search r s = Some (pre, m, post) \<Longrightarrow> m \<noteq> [] \<Longrightarrow>
   s = pre @ m @ post \<and> rx_match r (m @ post) \<noteq> [] \<and> hd (rx_match r (m @ post)) = post
   \<and> re_sub r f s = pre @ f m @ re_sub r f post"
proof (induction s arbitrary: pre)
  case Nil
  then show ?case by (auto simp: re_search.simps [of r "[]"] split: list.splits)
next
  case (Cons x xs)
  show ?case
  proof (cases "rx_match r (x # xs)")
    case Nil
    with Cons.prems(1) obtain pre' where s: "re_search r xs = Some (pre', m, post)" and p: "pre = x # pre'"
      by (auto simp: re_search.simps [of r "x # xs"] split: option.splits)
    have h: "re_sub r f (x # xs) = x # re_sub r f xs"
      using Nil by (subst re_sub.simps) simp
    from Cons.IH [OF s Cons.prems(2)]
    have i1: "xs = pre' @ m @ post"
      and i2: "rx_match r (m @ post) \<noteq> []" "hd (rx_match r (m @ post)) = post"
      and i4: "re_sub r f xs = pre' @ f m @ re_sub r f post" by blast+
    have "x # xs = pre @ m @ post" using i1 p by simp
    moreover have "re_sub r f (x # xs) = pre @ f m @ re_sub r f post"
      unfolding h i4 p by simp
    ultimately show ?thesis using i2 by blast
  next
    case (Cons t ts)
    with Cons.prems(1) have e: "pre = []" "m = take (length (x # xs) - length t) (x # xs)" "post = t"
      by (auto simp: re_search.simps [of r "x # xs"])
    from rx_match_hd_split [OF Cons] e have sp: "x # xs = m @ post" by simp
    with Cons.prems(2) have lt: "length t < length (x # xs)"
      using e(3) by (metis length_append length_greater_0_conv less_add_same_cancel2)
    have "re_sub r f (x # xs) = f m @ re_sub r f t"
      using Cons lt e(2) by (subst re_sub.simps) simp
    with e sp Cons show ?thesis by simp
  qed
qed

lemma re_sub_fixed:
  "\<forall>m\<in>set (re_findall r s). f m = m \<Longrightarrow> re_sub r f s = s"
proof (induction r f s rule: re_sub.induct)
  case (1 r f s)
  show ?case
  proof (cases "rx_match r s")
    case Nil
    show ?thesis
    proof (cases s)
      case Nil
      with \<open>rx_match r s = []\<close> show ?thesis by (subst re_sub.simps) simp
    next
      case (Cons x xs)
      have "\<forall>m\<in>set (re_findall r xs). f m = m"
        using "1.prems" Nil Cons by (subst (asm) re_findall.simps) simp
      from "1.IH"(1) [OF Nil Cons this] Nil Cons show ?thesis
        by (subst re_sub.simps) simp
    qed
  next
    case (Cons t ts)
    note m = Cons
    show ?thesis
    proof (cases "length t < length s")
      case True
      have a: "f (take (length s - length t) s) = take (length s - length t) s"
        and b: "\<forall>m\<in>set (re_findall r t). f m = m"
        using "1.prems" m True by (subst (asm) re_findall.simps; simp)+
      from "1.IH"(2) [OF m True b] a m True rx_match_hd_split [OF m] show ?thesis
        by (subst re_sub.simps) simp
    next
      case False
      have a: "f [] = []" using "1.prems" m False by (subst (asm) re_findall.simps) simp
      show ?thesis
      proof (cases s)
        case Nil
        with a m False show ?thesis by (subst re_sub.simps) simp
      next
        case (Cons x xs)
        have "\<forall>m\<in>set (re_findall r xs). f m = m"
          using "1.prems" m False Cons by (subst (asm) re_findall.simps) simp
        from "1.IH"(3) [OF m False Cons this] a m False Cons show ?thesis
          by (subst re_sub.simps) simp
      qed
    qed
  qed
qed

text \<open>What the search for the object pattern finds is a run of word characters and \<open>.o\<close>.\<close>

lemma re_search_object:
  "re_search object_rx s = Some (pre, m, post) \<Longrightarrow>
   \<exists>w. w \<noteq> [] \<and> (\<forall>x\<in>set w. is_word x) \<and> m = w @ ''.o''"
proof (induction s arbitrary: pre)
  case Nil
  then show ?case
    by (auto simp: re_search.simps [of _ "[]"] rx_match_object split: list.splits)
next
  case (Cons x xs)
  show ?case
  proof (cases "rx_match object_rx (x # xs)")
    case Nil
    with Cons.prems obtain pre' where "re_search object_rx xs = Some (pre', m, post)"
      by (auto simp: re_search.simps [of _ "x # xs"] split: option.splits)
    then show ?thesis by (rule Cons.IH)
  next
    case (Cons t ts)
    define w where "w = takeWhile is_word (x # xs)"
    from rx_match_object_Cons [OF Cons]
    have s: "x # xs = w @ ''.o'' @ t" and w: "w \<noteq> []" unfolding w_def by blast+
    from Cons Cons.prems have m: "m = take (length (x # xs) - length t) (x # xs)"
      by (auto simp: re_search.simps [of _ "x # xs"])
    have "take (length (x # xs) - length t) (x # xs) = w @ ''.o''"
      unfolding s by simp
    with m have "m = w @ ''.o''" by simp
    moreover have "\<forall>c\<in>set w. is_word c" unfolding w_def by (meson set_takeWhileD)
    ultimately show ?thesis using w by blast
  qed
qed

section \<open>Properties: paths and the search of the tree\<close>

lemma join_slash_append:
  "xs \<noteq> [] \<Longrightarrow> ys \<noteq> [] \<Longrightarrow> join_slash (xs @ ys) = join_slash xs @ CHR ''/'' # join_slash ys"
proof (induction xs rule: join_slash.induct)
  case 1
  then show ?case by simp
next
  case (2 x)
  then show ?case by (cases ys) simp_all
next
  case (3 x y ys')
  then show ?case by simp
qed

lemma Path_chroot_dir:
  "Path chroot_dir = \<lparr>anchor = ''/'', names = [''var'', ''chroot'', ''raspbian_buster_armhf'']\<rparr>"
  by code_simp

lemma iterate_subdirs_below:
  "(d, q, es) \<in> set (iterate_subdirs p q0 es0) \<Longrightarrow>
   anchor d = anchor p \<and> strict_prefix (names p) (names d)"
proof (induction p q0 es0 arbitrary: d q es rule: iterate_subdirs.induct)
  case (1 p q)
  then show ?case by simp
next
  case (2 p q0 n x es0)
  from "2.prems" consider
      (sub) sub where "x = Dir sub" "(d, q, es) = (child p n, q0 @ [n], sub)"
    | (deep) sub where "x = Dir sub" "(d, q, es) \<in> set (iterate_subdirs (child p n) (q0 @ [n]) sub)"
    | (rest) "(d, q, es) \<in> set (iterate_subdirs p q0 es0)"
    by (auto split: node.splits)
  then show ?case
  proof cases
    case sub
    then show ?thesis by (simp add: child_def strict_prefix_def)
  next
    case deep
    from "2.IH"(1) [OF deep]
    have a: "anchor d = anchor p" and b: "strict_prefix (names p @ [n]) (names d)"
      by (simp_all add: child_def)
    have "strict_prefix (names p) (names p @ [n])" by (simp add: strict_prefix_def)
    from this b have "strict_prefix (names p) (names d)" by (rule prefix_order.less_trans)
    with a show ?thesis by simp
  next
    case rest
    then show ?thesis by (rule "2.IH"(2))
  qed
qed

lemma iterate_directories_below:
  "(d, q, es) \<in> set (iterate_directories fs start) \<Longrightarrow>
   anchor d = anchor start \<and> prefix (names start) (names d)"
  by (auto simp: iterate_directories_def split: option.splits dest: iterate_subdirs_below)

lemma rglob_name_below:
  "p \<in> set (rglob_name fs start name) \<Longrightarrow>
   anchor p = anchor start \<and> (\<exists>mid. names p = names start @ mid @ [name])"
proof -
  assume "p \<in> set (rglob_name fs start name)"
  then obtain d q es where d: "(d, q, es) \<in> set (iterate_directories fs start)" and p: "p = child d name"
    by (auto simp: rglob_name_def select_precise_def split: if_splits)
  from iterate_directories_below [OF d] obtain mid where "anchor d = anchor start" "names d = names start @ mid"
    by (auto simp: prefix_def)
  with p show ?thesis by (simp add: child_def)
qed

lemma rglob_all_below:
  "(p, x) \<in> set (rglob_all fs start) \<Longrightarrow>
   anchor p = anchor start \<and> (\<exists>mid n. names p = names start @ mid @ [n])"
proof -
  assume "(p, x) \<in> set (rglob_all fs start)"
  then obtain d q es n where d: "(d, q, es) \<in> set (iterate_directories fs start)" and p: "p = child d n"
    by (auto simp: rglob_all_def select_wildcard_def)
  from iterate_directories_below [OF d] obtain mid where "anchor d = anchor start" "names d = names start @ mid"
    by (auto simp: prefix_def)
  with p show ?thesis by (simp add: child_def)
qed

text \<open>A path that the search of the chroot yields, as a string.\<close>

lemma rglob_name_chroot_str:
  assumes "p \<in> set (rglob_name fs (Path chroot_dir) name)"
  shows "is_absolute p \<and> path_name p = name
    \<and> prefix (chroot_dir @ ''/'') (path_str p) \<and> suffix (''/'' @ name) (path_str p)"
proof -
  from rglob_name_below [OF assms] obtain mid where
    a: "anchor p = ''/''" and n: "names p = [''var'', ''chroot'', ''raspbian_buster_armhf''] @ mid @ [name]"
    by (auto simp: Path_chroot_dir)
  have s1: "path_str p = chroot_dir @ ''/'' @ join_slash (mid @ [name])"
    using a n join_slash_append [of "[''var'', ''chroot'', ''raspbian_buster_armhf'']" "mid @ [name]"]
    by (simp add: path_str_def chroot_dir_def)
  have s2: "suffix (''/'' @ name) (path_str p)"
  proof (cases mid)
    case Nil
    then show ?thesis using s1 by (simp add: suffix_def)
  next
    case (Cons m ms)
    then have "join_slash (mid @ [name]) = join_slash mid @ ''/'' @ name"
      using join_slash_append [of mid "[name]"] by simp
    then show ?thesis unfolding s1 suffix_def by (intro exI [of _ "chroot_dir @ ''/'' @ join_slash mid"]) simp
  qed
  show ?thesis using a n s1 s2 by (simp add: is_absolute_def path_name_def)
qed

section \<open>Properties: pathlib and the relativizer\<close>

lemma split_slash_no_slash: "CHR ''/'' \<notin> set x \<Longrightarrow> split_slash x = [x]"
  by (induction x) auto

lemma split_slash_append_slash:
  "CHR ''/'' \<notin> set x \<Longrightarrow> split_slash (x @ CHR ''/'' # r) = x # split_slash r"
  by (induction x) auto

lemma split_slash_join:
  "cs \<noteq> [] \<Longrightarrow> \<forall>c\<in>set cs. CHR ''/'' \<notin> set c \<Longrightarrow> split_slash (join_slash cs) = cs"
proof (induction cs rule: join_slash.induct)
  case 1
  then show ?case by simp
next
  case (2 x)
  then show ?case by (simp add: split_slash_no_slash)
next
  case (3 x y ys)
  then show ?case by (simp add: split_slash_append_slash)
qed

lemma split_slash_parts_no_slash: "c \<in> set (split_slash s) \<Longrightarrow> CHR ''/'' \<notin> set c"
proof (induction s arbitrary: c)
  case Nil
  then show ?case by simp
next
  case (Cons x xs)
  then show ?case by (cases "split_slash xs") (auto split: if_splits)
qed

lemma split_slash_not_Nil [simp]: "split_slash s \<noteq> []"
  by (induction s) (auto split: list.splits)

lemma lstrip_slash_join:
  "\<forall>c\<in>set cs. c \<noteq> [] \<and> CHR ''/'' \<notin> set c \<Longrightarrow> lstrip_slash (join_slash cs) = join_slash cs"
proof (cases cs)
  case Nil
  then show ?thesis by (simp add: lstrip_slash_def)
next
  case (Cons c cs')
  assume "\<forall>c\<in>set cs. c \<noteq> [] \<and> CHR ''/'' \<notin> set c"
  with Cons obtain a as where c: "c = a # as" "a \<noteq> CHR ''/''" by (cases c) auto
  then have "\<exists>r. join_slash cs = a # r" using Cons by (cases cs') auto
  then show ?thesis using c(2) by (auto simp: lstrip_slash_def)
qed

lemma path_str_rooted: "path_str \<lparr>anchor = ''/'', names = cs\<rparr> = CHR ''/'' # join_slash cs"
  by (simp add: path_str_def)

text \<open>A path written with one leading slash and proper names is parsed into these names.\<close>

lemma Path_rooted:
  assumes "\<forall>c\<in>set cs. proper_name c"
  shows "Path (CHR ''/'' # join_slash cs) = \<lparr>anchor = ''/'', names = cs\<rparr>"
proof -
  have ok: "\<forall>c\<in>set cs. c \<noteq> [] \<and> CHR ''/'' \<notin> set c" using assms by (simp add: proper_name_def)
  have ls: "lstrip_slash (CHR ''/'' # join_slash cs) = join_slash cs"
    using lstrip_slash_join [OF ok] by (simp add: lstrip_slash_def)
  have sr: "splitroot (CHR ''/'' # join_slash cs) = (''/'', join_slash cs)"
    by (simp add: splitroot_def ls)
  have "filter (\<lambda>x. x \<noteq> [] \<and> x \<noteq> ''.'') (split_slash (join_slash cs)) = cs"
  proof (cases cs)
    case Nil
    then show ?thesis by simp
  next
    case (Cons c cs')
    then have "split_slash (join_slash cs) = cs" using ok by (intro split_slash_join) auto
    moreover have "filter (\<lambda>x. x \<noteq> [] \<and> x \<noteq> ''.'') cs = cs"
      using assms by (auto simp: proper_name_def filter_id_conv)
    ultimately show ?thesis by simp
  qed
  then show ?thesis by (simp add: Path_def sr)
qed

lemma path_str_Path_rooted:
  "\<forall>c\<in>set cs. proper_name c \<Longrightarrow> path_str (Path (CHR ''/'' # join_slash cs)) = CHR ''/'' # join_slash cs"
  by (simp add: Path_rooted path_str_rooted)

lemma path_str_below_chroot:
  "path_str \<lparr>anchor = ''/'', names = [''var'', ''chroot'', ''raspbian_buster_armhf''] @ ds @ [n]\<rparr>
     = chroot_dir @ CHR ''/'' # join_slash (ds @ [n])"
  using join_slash_append [of "[''var'', ''chroot'', ''raspbian_buster_armhf'']" "ds @ [n]"]
  by (simp add: path_str_def chroot_dir_def)

lemma repeat_str_nat: "repeat_str s (int k) = concat (replicate k s)"
  by (simp add: repeat_str_def)

text \<open>
  The number of \<^verbatim>\<open>../\<close> is the number of directories between the chroot and the link,
  when the chroot's path does not occur again in the link's path.
\<close>

lemma link_depth:
  assumes p: "\<forall>c\<in>set (ds @ [n]). proper_name c"
    and r: "\<not> sublist chroot_dir (CHR ''/'' # join_slash (ds @ [n]))"
  shows "int (length (parts (parent (Path (replace_str chroot_dir []
           (path_str \<lparr>anchor = ''/'', names = [''var'', ''chroot'', ''raspbian_buster_armhf''] @ ds @ [n]\<rparr>)))))) - 1
         = int (length ds)"
proof -
  have ne: "chroot_dir \<noteq> []" by (simp add: chroot_dir_def)
  have "replace_str chroot_dir [] (chroot_dir @ CHR ''/'' # join_slash (ds @ [n]))
      = CHR ''/'' # join_slash (ds @ [n])"
    using replace_str_hit [OF ne, of "[]" "CHR ''/'' # join_slash (ds @ [n])"]
      replace_str_absent [OF ne r, of "[]"] by simp
  then have "Path (replace_str chroot_dir []
           (path_str \<lparr>anchor = ''/'', names = [''var'', ''chroot'', ''raspbian_buster_armhf''] @ ds @ [n]\<rparr>))
      = \<lparr>anchor = ''/'', names = ds @ [n]\<rparr>"
    using Path_rooted [OF p] by (simp only: path_str_below_chroot)
  then show ?thesis by (simp add: parent_def parts_def)
qed

lemma rel_link_target_below_chroot:
  assumes "\<forall>c\<in>set (ds @ [n]). proper_name c"
    and "\<not> sublist chroot_dir (CHR ''/'' # join_slash (ds @ [n]))"
  shows "rel_link_target
           \<lparr>anchor = ''/'', names = [''var'', ''chroot'', ''raspbian_buster_armhf''] @ ds @ [n]\<rparr> lt
         = concat (replicate (length ds) ''../'') @ lstrip_slash (path_str lt)"
  unfolding rel_link_target_def link_depth [OF assms] repeat_str_nat ..

lemma norm_step_proper: "proper_name x \<Longrightarrow> norm_step acc x = acc @ [x]"
  by (simp add: norm_step_def proper_name_def)

lemma foldl_norm_proper: "\<forall>c\<in>set ds. proper_name c \<Longrightarrow> foldl norm_step acc ds = acc @ ds"
  by (induction ds arbitrary: acc) (simp_all add: norm_step_proper)

lemma foldl_norm_updots: "foldl norm_step (acc @ ds) (replicate (length ds) ''..'') = acc"
proof (induction ds rule: rev_induct)
  case Nil
  then show ?case by simp
next
  case (snoc d ds)
  have "norm_step (acc @ ds @ [d]) ''..'' = acc @ ds"
    by (simp add: norm_step_def butlast_append)
  with snoc show ?case by simp
qed

lemma foldl_norm_filter:
  "foldl norm_step acc (filter (\<lambda>x. x \<noteq> [] \<and> x \<noteq> ''.'') xs) = foldl norm_step acc xs"
  by (induction xs arbitrary: acc) (simp_all add: norm_step_def)

lemma split_slash_updots:
  "split_slash (concat (replicate k ''../'') @ r) = replicate k ''..'' @ split_slash r"
proof (induction k)
  case 0
  then show ?case by simp
next
  case (Suc k)
  have "split_slash (''..'' @ CHR ''/'' # (concat (replicate k ''../'') @ r))
      = ''..'' # split_slash (concat (replicate k ''../'') @ r)"
    by (rule split_slash_append_slash) simp
  with Suc show ?case by simp
qed

lemma foldl_norm_lstrip:
  "foldl norm_step acc (split_slash (lstrip_slash t)) = foldl norm_step acc (split_slash t)"
  by (induction t) (simp_all add: lstrip_slash_def norm_step_def)

lemma lstrip_slash_anchor:
  "lstrip_slash (fst (splitroot t) @ r) = lstrip_slash r"
  by (auto simp: splitroot_def lstrip_slash_def Let_def)

text \<open>
  Read name by name, the target as pathlib prints it, without its leading slashes,
  denotes what the target itself denotes.
\<close>

lemma Path_absolute:
  "prefix ''/'' t \<Longrightarrow>
   Path t = \<lparr>anchor = fst (splitroot t),
             names = filter (\<lambda>x. x \<noteq> [] \<and> x \<noteq> ''.'') (split_slash (lstrip_slash t))\<rparr>
   \<and> fst (splitroot t) \<noteq> []"
proof -
  assume "prefix ''/'' t"
  then obtain u where t: "t = CHR ''/'' # u" by (auto simp: prefix_def)
  have "snd (splitroot t) = lstrip_slash t" "fst (splitroot t) \<noteq> []"
    unfolding t by (simp_all add: splitroot_def Let_def)
  then show ?thesis by (simp add: Path_def case_prod_beta)
qed

lemma norm_printed_target:
  assumes "prefix ''/'' t"
  shows "foldl norm_step acc (split_slash (lstrip_slash (path_str (Path t))))
       = foldl norm_step acc (split_slash t)"
proof -
  define F where "F = filter (\<lambda>x. x \<noteq> [] \<and> x \<noteq> ''.'') (split_slash (lstrip_slash t))"
  from Path_absolute [OF assms]
  have P: "Path t = \<lparr>anchor = fst (splitroot t), names = F\<rparr>" and ne: "fst (splitroot t) \<noteq> []"
    unfolding F_def by blast+
  have ok: "\<forall>c\<in>set F. c \<noteq> [] \<and> CHR ''/'' \<notin> set c"
    unfolding F_def by (auto dest: split_slash_parts_no_slash)
  have "path_str (Path t) = fst (splitroot t) @ join_slash F"
    unfolding P using ne by (simp add: path_str_def)
  then have "lstrip_slash (path_str (Path t)) = lstrip_slash (join_slash F)"
    by (simp only: lstrip_slash_anchor)
  also have "\<dots> = join_slash F" by (rule lstrip_slash_join [OF ok])
  finally have L: "lstrip_slash (path_str (Path t)) = join_slash F" .
  have J: "foldl norm_step acc (split_slash (join_slash F)) = foldl norm_step acc F"
  proof (cases "F = []")
    case True
    then show ?thesis by (simp add: norm_step_def)
  next
    case False
    then have "split_slash (join_slash F) = F" using ok by (intro split_slash_join) auto
    then show ?thesis by simp
  qed
  have "foldl norm_step acc F = foldl norm_step acc (split_slash (lstrip_slash t))"
    unfolding F_def by (rule foldl_norm_filter)
  also have "\<dots> = foldl norm_step acc (split_slash t)" by (rule foldl_norm_lstrip)
  finally show ?thesis unfolding L J .
qed

text \<open>
  Where the chroot's path does not occur again in the link's path, the new target, read
  from the link's directory, denotes what the old target denotes when read from the chroot.
\<close>

lemma relativized_target_same_file:
  assumes p: "\<forall>c\<in>set (ds @ [n]). proper_name c"
    and r: "\<not> sublist chroot_dir (CHR ''/'' # join_slash (ds @ [n]))"
    and t: "prefix ''/'' t"
  shows "normpath (names (parent \<lparr>anchor = ''/'', names = [''var'', ''chroot'', ''raspbian_buster_armhf''] @ ds @ [n]\<rparr>)
                   @ split_slash (rel_link_target
                       \<lparr>anchor = ''/'', names = [''var'', ''chroot'', ''raspbian_buster_armhf''] @ ds @ [n]\<rparr> (Path t)))
       = normpath ([''var'', ''chroot'', ''raspbian_buster_armhf''] @ split_slash t)"
proof -
  let ?root = "[''var'', ''chroot'', ''raspbian_buster_armhf'']"
  let ?L = "lstrip_slash (path_str (Path t))"
  have pr: "\<forall>c\<in>set (?root @ ds). proper_name c" using p by (auto simp: proper_name_def)
  have pr0: "\<forall>c\<in>set ?root. proper_name c" by (auto simp: proper_name_def)
  have tg: "rel_link_target \<lparr>anchor = ''/'', names = ?root @ ds @ [n]\<rparr> (Path t)
      = concat (replicate (length ds) ''../'') @ ?L"
    by (rule rel_link_target_below_chroot [OF p r])
  have s1: "foldl norm_step [] (?root @ ds) = ?root @ ds"
    using foldl_norm_proper [OF pr, of "[]"] by simp
  have s2: "foldl norm_step (?root @ ds) (replicate (length ds) ''..'') = ?root"
    by (rule foldl_norm_updots)
  have "normpath ((?root @ ds) @ replicate (length ds) ''..'' @ split_slash ?L)
      = foldl norm_step (foldl norm_step (foldl norm_step [] (?root @ ds))
          (replicate (length ds) ''..'')) (split_slash ?L)"
    by (simp only: normpath_def foldl_append)
  also have "\<dots> = foldl norm_step ?root (split_slash ?L)"
    by (simp only: s1 s2)
  also have "\<dots> = foldl norm_step ?root (split_slash t)"
    by (rule norm_printed_target [OF t])
  also have "\<dots> = normpath (?root @ split_slash t)"
    using foldl_norm_proper [OF pr0, of "[]"] by (simp only: normpath_def foldl_append append_Nil)
  finally show ?thesis
    unfolding tg split_slash_updots by (simp add: parent_def butlast_append)
qed

section \<open>Properties: the specs rewriter\<close>

text \<open>
  C4. In the specs rewriter the placeholder \<^verbatim>\<open>%D\<close> is replaced verbatim by
  \<^verbatim>\<open>ld_search_paths\<close>: the text before the first \<^verbatim>\<open>%D\<close> is kept, the fixed string
  stands in its place, and the rest is rewritten the same way. The fixed string is a
  concatenation of \<^verbatim>\<open>-L<dir>\<close> flags, separated by blanks, and the directories it
  names are exactly five directories under the chroot: \<^verbatim>\<open>lib\<close>, the architecture's
  \<^verbatim>\<open>lib\<close>, \<^verbatim>\<open>usr/lib\<close>, the architecture's \<^verbatim>\<open>usr/lib\<close> (named by two of the six
  flags) and the compiler's own library directory.
\<close>

theorem placeholder_replaced_by_five_dirs:
  "(\<not> sublist ''%D'' pre \<longrightarrow>
      substitute_search_paths (pre @ ''%D'' @ post)
        = pre @ ld_search_paths @ substitute_search_paths post)
   \<and> ld_search_paths
        = concat (map (\<lambda>d. ''-L'' @ chroot_dir @ d @ '' '')
            [''/lib'', ''/lib/arm-linux-gnueabihf'', ''/usr/lib'',
             ''/usr/lib/arm-linux-gnueabihf'', ''/usr/lib/arm-linux-gnueabihf''])
          @ ''-L'' @ chroot_dir @ ''/usr/lib/gcc/arm-linux-gnueabihf/8''
   \<and> card (set (map (\<lambda>d. chroot_dir @ d)
        [''/lib'', ''/lib/arm-linux-gnueabihf'', ''/usr/lib'',
         ''/usr/lib/arm-linux-gnueabihf'', ''/usr/lib/arm-linux-gnueabihf'',
         ''/usr/lib/gcc/arm-linux-gnueabihf/8''])) = 5"
proof (intro conjI impI)
  assume "\<not> sublist ''%D'' pre"
  then have "\<not> sublist ''%D'' (pre @ butlast ''%D'')"
    using placeholder_not_across [of pre] by auto
  then show "substitute_search_paths (pre @ ''%D'' @ post)
      = pre @ ld_search_paths @ substitute_search_paths post"
    unfolding substitute_search_paths_def by (intro replace_str_first) simp_all
next
  show "ld_search_paths
        = concat (map (\<lambda>d. ''-L'' @ chroot_dir @ d @ '' '')
            [''/lib'', ''/lib/arm-linux-gnueabihf'', ''/usr/lib'',
             ''/usr/lib/arm-linux-gnueabihf'', ''/usr/lib/arm-linux-gnueabihf''])
          @ ''-L'' @ chroot_dir @ ''/usr/lib/gcc/arm-linux-gnueabihf/8''"
    by (simp add: ld_search_paths_def chroot_dir_def)
next
  show "card (set (map (\<lambda>d. chroot_dir @ d)
        [''/lib'', ''/lib/arm-linux-gnueabihf'', ''/usr/lib'',
         ''/usr/lib/arm-linux-gnueabihf'', ''/usr/lib/arm-linux-gnueabihf'',
         ''/usr/lib/gcc/arm-linux-gnueabihf/8''])) = 5"
    by (simp add: chroot_dir_def)
qed

theorem placeholder_replaced_by_five_dirs_witness:
  "\<not> sublist ''%D'' ''%{L*} ''
   \<and> substitute_search_paths (''%{L*} '' @ ''%D'' @ '' -lc'')
       = ''%{L*} '' @ ld_search_paths @ '' -lc''"
proof -
  have h: "\<not> sublist ''%D'' ''%{L*} ''" by code_simp
  have r: "substitute_search_paths '' -lc'' = '' -lc''" by code_simp
  show ?thesis
    using h r placeholder_replaced_by_five_dirs [of "''%{L*} ''" "'' -lc''"] by simp
qed

text \<open>
  C9. A specs text with no occurrence of the placeholder \<^verbatim>\<open>%D\<close> comes back from the
  placeholder substitution unchanged.
\<close>

theorem placeholder_absent_noop:
  "\<not> sublist ''%D'' specs \<Longrightarrow> substitute_search_paths specs = specs"
  unfolding substitute_search_paths_def by (rule replace_str_absent) simp_all

theorem placeholder_absent_noop_witness:
  "\<not> sublist ''%D'' ''*link: %{shared:-lgcc}''
   \<and> substitute_search_paths ''*link: %{shared:-lgcc}'' = ''*link: %{shared:-lgcc}''"
proof -
  have h: "\<not> sublist ''%D'' ''*link: %{shared:-lgcc}''" by code_simp
  show ?thesis using h placeholder_absent_noop [OF h] by simp
qed

text \<open>
  C5. The object files of the specs text. The scan finds the leftmost token made of
  word characters and \<^verbatim>\<open>.o\<close>; what stands before it is kept. If the search of the
  chroot for that name yields a path, the token is replaced by the first path yielded, an
  absolute path below the chroot that ends in the name; if the search yields nothing, the
  token is kept as it is. The text behind the token is rewritten the same way. No case
  raises an error: \<open>resolve_objects\<close> is total. In particular a text in which no token is
  found by the search of the chroot comes back unchanged.
\<close>

theorem object_tokens_resolved:
  "(re_search object_rx specs = None \<longrightarrow> resolve_objects fs specs = specs)
   \<and> (\<forall>pre tok post. re_search object_rx specs = Some (pre, tok, post) \<longrightarrow>
         specs = pre @ tok @ post
         \<and> (\<exists>w. w \<noteq> [] \<and> (\<forall>x\<in>set w. is_word x) \<and> tok = w @ ''.o'')
         \<and> (case rglob_name fs (Path chroot_dir) tok of
               [] \<Rightarrow> resolve_objects fs specs = pre @ tok @ resolve_objects fs post
             | p # ps \<Rightarrow>
                 resolve_objects fs specs = pre @ path_str p @ resolve_objects fs post
                 \<and> is_absolute p \<and> path_name p = tok
                 \<and> prefix (chroot_dir @ ''/'') (path_str p) \<and> suffix (''/'' @ tok) (path_str p)))
   \<and> ((\<forall>tok\<in>set (re_findall object_rx specs). rglob_name fs (Path chroot_dir) tok = [])
        \<longrightarrow> resolve_objects fs specs = specs)"
proof (intro conjI allI impI)
  assume "re_search object_rx specs = None"
  then show "resolve_objects fs specs = specs"
    unfolding resolve_objects_def by (rule re_search_None)
next
  fix pre tok post
  assume s: "re_search object_rx specs = Some (pre, tok, post)"
  from re_search_object [OF s] show w: "\<exists>w. w \<noteq> [] \<and> (\<forall>x\<in>set w. is_word x) \<and> tok = w @ ''.o''" .
  then have ne: "tok \<noteq> []" by auto
  from re_search_Some [OF s ne, of "replace_with_path fs"]
  have sp: "specs = pre @ tok @ post"
    and r: "resolve_objects fs specs = pre @ replace_with_path fs tok @ resolve_objects fs post"
    unfolding resolve_objects_def by blast+
  show "specs = pre @ tok @ post" by (rule sp)
  show "case rglob_name fs (Path chroot_dir) tok of
               [] \<Rightarrow> resolve_objects fs specs = pre @ tok @ resolve_objects fs post
             | p # ps \<Rightarrow>
                 resolve_objects fs specs = pre @ path_str p @ resolve_objects fs post
                 \<and> is_absolute p \<and> path_name p = tok
                 \<and> prefix (chroot_dir @ ''/'') (path_str p) \<and> suffix (''/'' @ tok) (path_str p)"
  proof (cases "rglob_name fs (Path chroot_dir) tok")
    case Nil
    then show ?thesis using r by (simp add: replace_with_path_def)
  next
    case (Cons p ps)
    then have "p \<in> set (rglob_name fs (Path chroot_dir) tok)" by simp
    from rglob_name_chroot_str [OF this] Cons r show ?thesis
      by (simp add: replace_with_path_def)
  qed
next
  assume "\<forall>tok\<in>set (re_findall object_rx specs). rglob_name fs (Path chroot_dir) tok = []"
  then have "\<forall>m\<in>set (re_findall object_rx specs). replace_with_path fs m = m"
    by (simp add: replace_with_path_def)
  then show "resolve_objects fs specs = specs"
    unfolding resolve_objects_def by (rule re_sub_fixed)
qed

theorem object_tokens_resolved_witness:
  "re_search object_rx ''-lc'' = None
   \<and> resolve_objects disk_two_crt1 ''-lc'' = ''-lc''
   \<and> re_search object_rx ''%{!shared:crt1.o%s} crtn.o'' = Some (''%{!shared:'', ''crt1.o'', ''%s} crtn.o'')
   \<and> resolve_objects disk_two_crt1 ''%{!shared:crt1.o%s} crtn.o''
       = ''%{!shared:/var/chroot/raspbian_buster_armhf/usr/lib/crt1.o%s} crtn.o''
   \<and> set (re_findall object_rx ''%s} crtn.o'') = {''crtn.o''}
   \<and> rglob_name disk_two_crt1 (Path chroot_dir) ''crtn.o'' = []
   \<and> resolve_objects disk_two_crt1 ''%s} crtn.o'' = ''%s} crtn.o''"
proof -
  have n: "re_search object_rx ''-lc'' = None" by code_simp
  have s: "re_search object_rx ''%{!shared:crt1.o%s} crtn.o'' = Some (''%{!shared:'', ''crt1.o'', ''%s} crtn.o'')"
    by code_simp
  have g: "rglob_name disk_two_crt1 (Path chroot_dir) ''crt1.o''
     = [\<lparr>anchor = ''/'', names = [''var'', ''chroot'', ''raspbian_buster_armhf'', ''usr'', ''lib'', ''crt1.o'']\<rparr>,
        \<lparr>anchor = ''/'', names = [''var'', ''chroot'', ''raspbian_buster_armhf'', ''usr'', ''lib32'', ''crt1.o'']\<rparr>]"
    by code_simp
  have f: "re_findall object_rx ''%s} crtn.o'' = [''crtn.o'']" by code_simp
  have m: "rglob_name disk_two_crt1 (Path chroot_dir) ''crtn.o'' = []" by code_simp
  have p: "path_str \<lparr>anchor = ''/'', names = [''var'', ''chroot'', ''raspbian_buster_armhf'', ''usr'', ''lib'', ''crt1.o'']\<rparr>
     = ''/var/chroot/raspbian_buster_armhf/usr/lib/crt1.o''" by code_simp
  have a: "resolve_objects disk_two_crt1 ''-lc'' = ''-lc''"
    using n object_tokens_resolved [of "''-lc''" disk_two_crt1] by simp
  have c: "resolve_objects disk_two_crt1 ''%s} crtn.o'' = ''%s} crtn.o''"
    using f m object_tokens_resolved [of "''%s} crtn.o''" disk_two_crt1] by simp
  have b: "resolve_objects disk_two_crt1 ''%{!shared:crt1.o%s} crtn.o''
       = ''%{!shared:/var/chroot/raspbian_buster_armhf/usr/lib/crt1.o%s} crtn.o''"
    using s g p c object_tokens_resolved [of "''%{!shared:crt1.o%s} crtn.o''" disk_two_crt1] by simp
  show ?thesis using n a s b f m c by simp
qed

section \<open>Properties: the symlink fixup\<close>

lemma anchor_Path: "anchor (Path t) = fst (splitroot t)"
  by (simp add: Path_def split: prod.splits)

lemma is_absolute_Path: "is_absolute (Path t) \<longleftrightarrow> prefix ''/'' t"
  by (cases t) (auto simp: is_absolute_def anchor_Path splitroot_def Let_def)

lemma lstrip_slash_not_slash: "\<not> prefix ''/'' (lstrip_slash s)"
  by (induction s) (simp_all add: lstrip_slash_def)

lemma repeat_str_dots: "repeat_str ''../'' k = [] \<or> prefix ''.'' (repeat_str ''../'' k)"
  by (cases "nat k") (simp_all add: repeat_str_def)

lemma rel_link_target_relative: "\<not> is_absolute (Path (rel_link_target path lt))"
proof -
  let ?k = "int (length (parts (parent (Path (replace_str chroot_dir [] (path_str path)))))) - 1"
  from repeat_str_dots [of ?k] show ?thesis
  proof
    assume "repeat_str ''../'' ?k = []"
    then show ?thesis
      using lstrip_slash_not_slash [of "path_str lt"] by (simp add: is_absolute_Path rel_link_target_def)
  next
    assume "prefix ''.'' (repeat_str ''../'' ?k)"
    then obtain r where "repeat_str ''../'' ?k = CHR ''.'' # r" by (auto simp: prefix_def)
    then show ?thesis by (simp add: is_absolute_Path rel_link_target_def)
  qed
qed

lemma link_command_eq_Some:
  "link_command path x = Some cmd \<longleftrightarrow>
     eligible path x \<and> is_absolute (Path (readlink x))
     \<and> cmd = ''cd '' @ path_str (parent path) @ '' && sudo ln -fs ''
             @ rel_link_target path (Path (readlink x)) @ '' '' @ path_name path"
  by (auto simp: link_command_def Let_def)

lemma seq_Nil_map: "cmds = [] \<Longrightarrow> seq (map f cmds) tr = (tr, None)"
  by simp

lemma map_filter_Nil: "(\<forall>x\<in>set xs. f x = None) \<Longrightarrow> List.map_filter f xs = []"
  by (induction xs) (simp_all add: List.map_filter_simps)

text \<open>
  C6, as the specification states it: an entry is eligible if and only if it is a
  symbolic link and its name ends with \<^verbatim>\<open>.so\<close>, \<^verbatim>\<open>.so.<digits>\<close> or \<^verbatim>\<open>.a\<close>. Two
  links show that this fails for a name with a newline: \<^verbatim>\<open>a\nb.so\<close> ends with
  \<^verbatim>\<open>.so\<close> and is not eligible (the \<^verbatim>\<open>.\<close> of the pattern does not match a newline),
  and \<^verbatim>\<open>b.so\n\<close> ends with none of the three and is eligible (\<^verbatim>\<open>$\<close> matches before a
  final newline).
\<close>

theorem eligible_newline_counterexample:
  "is_symlink (Symlink ''/lib/b.so'')
   \<and> suffix ''.so'' ''a\<newline>b.so''
   \<and> \<not> eligible \<lparr>anchor = ''/'', names = [''var'', ''chroot'', ''raspbian_buster_armhf'', ''lib'', ''a\<newline>b.so'']\<rparr>
         (Symlink ''/lib/b.so'')
   \<and> \<not> suffix ''.so'' ''b.so\<newline>'' \<and> \<not> suffix ''.a'' ''b.so\<newline>''
   \<and> (\<forall>ds. \<not> suffix (''.so.'' @ ds) ''b.so\<newline>'')
   \<and> eligible \<lparr>anchor = ''/'', names = [''var'', ''chroot'', ''raspbian_buster_armhf'', ''lib'', ''b.so\<newline>'']\<rparr>
         (Symlink ''/lib/b.so'')"
proof -
  have a: "\<not> eligible \<lparr>anchor = ''/'', names = [''var'', ''chroot'', ''raspbian_buster_armhf'', ''lib'', ''a\<newline>b.so'']\<rparr>
         (Symlink ''/lib/b.so'')" by code_simp
  have b: "eligible \<lparr>anchor = ''/'', names = [''var'', ''chroot'', ''raspbian_buster_armhf'', ''lib'', ''b.so\<newline>'']\<rparr>
         (Symlink ''/lib/b.so'')" by code_simp
  have c: "\<not> suffix (''.so.'' @ ds) ''b.so\<newline>''" for ds
  proof
    assume s: "suffix (''.so.'' @ ds) ''b.so\<newline>''"
    then have "length (''.so.'' @ ds) \<le> length ''b.so\<newline>''" by (rule suffix_length_le)
    then have "length ds \<le> 1" by simp
    then consider "ds = []" | y where "ds = [y]" by (cases ds) auto
    then show False using s by cases (simp_all add: suffix_to_prefix)
  qed
  have d: "suffix ''.so'' ''a\<newline>b.so''" by (simp add: suffix_to_prefix)
  have e: "\<not> suffix ''.so'' ''b.so\<newline>''" "\<not> suffix ''.a'' ''b.so\<newline>''"
    by (simp_all add: suffix_to_prefix)
  have f: "is_symlink (Symlink ''/lib/b.so'')" by simp
  show ?thesis using a b c d e f by blast
qed

text \<open>
  C6, amended: for an entry whose name holds no newline, the entry is eligible if and
  only if it is a symbolic link and its name ends with \<^verbatim>\<open>.so\<close>, with \<^verbatim>\<open>.so.\<close> and
  one or more digits, or with \<^verbatim>\<open>.a\<close>. An entry that is not eligible is skipped: the
  loop body yields no command for it, and raises nothing.
\<close>

theorem eligible_iff_symlink_and_suffix:
  "CHR 0x0A \<notin> set (path_name path) \<Longrightarrow>
   (eligible path x \<longleftrightarrow>
      is_symlink x
      \<and> (suffix ''.so'' (path_name path) \<or> suffix ''.a'' (path_name path)
         \<or> (\<exists>ds. ds \<noteq> [] \<and> (\<forall>d\<in>set ds. is_digit d) \<and> suffix (''.so.'' @ ds) (path_name path))))
   \<and> (\<not> eligible path x \<longrightarrow> link_command path x = None)"
  using link_name_match [of "path_name path"] by (auto simp: eligible_def link_command_def)

theorem eligible_iff_symlink_and_suffix_witness:
  "CHR 0x0A \<notin> set (path_name \<lparr>anchor = ''/'', names = [''lib'', ''libm.so.6'']\<rparr>)
   \<and> is_symlink (Symlink ''libm-2.28.so'')
   \<and> eligible \<lparr>anchor = ''/'', names = [''lib'', ''libm.so.6'']\<rparr> (Symlink ''libm-2.28.so'')
   \<and> \<not> eligible \<lparr>anchor = ''/'', names = [''lib'', ''libm.so.6'']\<rparr> File
   \<and> link_command \<lparr>anchor = ''/'', names = [''lib'', ''libm.so.6'']\<rparr> File = None"
proof -
  have h: "CHR 0x0A \<notin> set (path_name \<lparr>anchor = ''/'', names = [''lib'', ''libm.so.6'']\<rparr>)"
    by (simp add: path_name_def)
  have d: "\<exists>ds. ds \<noteq> [] \<and> (\<forall>d\<in>set ds. is_digit d)
      \<and> suffix (''.so.'' @ ds) (path_name \<lparr>anchor = ''/'', names = [''lib'', ''libm.so.6'']\<rparr>)"
    by (rule exI [of _ "''6''"]) (simp add: is_digit_def path_name_def suffix_to_prefix)
  have s: "is_symlink (Symlink ''libm-2.28.so'')" "\<not> is_symlink File" by simp_all
  from h d s eligible_iff_symlink_and_suffix [OF h, of "Symlink ''libm-2.28.so''"]
  have a: "eligible \<lparr>anchor = ''/'', names = [''lib'', ''libm.so.6'']\<rparr> (Symlink ''libm-2.28.so'')"
    by blast
  from s eligible_iff_symlink_and_suffix [OF h, of File]
  have b: "\<not> eligible \<lparr>anchor = ''/'', names = [''lib'', ''libm.so.6'']\<rparr> File"
    and c: "link_command \<lparr>anchor = ''/'', names = [''lib'', ''libm.so.6'']\<rparr> File = None"
    by blast+
  show ?thesis using h s a b c by blast
qed

text \<open>
  C8. The loop body yields no command, so the entry's target stays as it is, for a link
  whose target is relative (it does not start with a slash), for an entry whose name the
  pattern does not match, and for an entry that is no link. A target that the loop body
  writes is itself relative, so the next run skips the link. Consequently, on a tree
  where every eligible link below \<^verbatim>\<open>lib\<close> already has a relative target, the fixup
  runs no command at all.
\<close>

theorem relative_and_unmatched_untouched:
  "(\<not> prefix ''/'' (readlink x) \<longrightarrow> link_command path x = None)
   \<and> (\<not> re_match link_name_rx (path_name path) \<longrightarrow> link_command path x = None)
   \<and> (\<not> is_symlink x \<longrightarrow> link_command path x = None)
   \<and> (\<forall>cmd. link_command path x = Some cmd \<longrightarrow>
         \<not> prefix ''/'' (rel_link_target path (Path (readlink x))))
   \<and> ((\<forall>(p, y)\<in>set (rglob_all (disk e tr) (Path (chroot_dir @ ''/lib''))).
          \<not> eligible p y \<or> \<not> prefix ''/'' (readlink y))
        \<longrightarrow> fix_absolute_links e tr = (tr, None))"
proof (intro conjI impI allI)
  assume "\<not> prefix ''/'' (readlink x)"
  then show "link_command path x = None"
    by (simp add: link_command_def Let_def is_absolute_Path)
next
  assume "\<not> re_match link_name_rx (path_name path)"
  then show "link_command path x = None" by (simp add: link_command_def eligible_def)
next
  assume "\<not> is_symlink x"
  then show "link_command path x = None" by (simp add: link_command_def eligible_def)
next
  fix cmd
  show "\<not> prefix ''/'' (rel_link_target path (Path (readlink x)))"
    using rel_link_target_relative [of path "Path (readlink x)"] by (simp add: is_absolute_Path)
next
  assume a: "\<forall>(p, y)\<in>set (rglob_all (disk e tr) (Path (chroot_dir @ ''/lib''))).
          \<not> eligible p y \<or> \<not> prefix ''/'' (readlink y)"
  have "\<forall>z\<in>set (rglob_all (disk e tr) (Path (chroot_dir @ ''/lib''))).
      (\<lambda>(path, x). link_command path x) z = None"
    using a by (auto simp: link_command_def Let_def is_absolute_Path)
  then have "link_commands (disk e tr) = []"
    unfolding link_commands_def by (rule map_filter_Nil)
  then show "fix_absolute_links e tr = (tr, None)" by (simp add: fix_absolute_links_def)
qed

theorem relative_and_unmatched_untouched_witness:
  "\<not> prefix ''/'' (readlink (Symlink ''../lib/libz.so.1''))
   \<and> link_command \<lparr>anchor = ''/'', names = [''var'', ''chroot'', ''raspbian_buster_armhf'', ''lib'', ''libz.so'']\<rparr>
        (Symlink ''../lib/libz.so.1'') = None
   \<and> \<not> re_match link_name_rx (path_name \<lparr>anchor = ''/'', names = [''var'', ''chroot'', ''raspbian_buster_armhf'', ''lib'', ''modules'']\<rparr>)
   \<and> link_command \<lparr>anchor = ''/'', names = [''var'', ''chroot'', ''raspbian_buster_armhf'', ''lib'', ''modules'']\<rparr>
        (Symlink ''/usr/lib/modules'') = None
   \<and> \<not> is_symlink File
   \<and> link_command \<lparr>anchor = ''/'', names = [''var'', ''chroot'', ''raspbian_buster_armhf'', ''lib'', ''libz.so.1'']\<rparr>
        File = None
   \<and> link_command \<lparr>anchor = ''/'', names = [''var'', ''chroot'', ''raspbian_buster_armhf'', ''lib'', ''libz.so'']\<rparr>
        (Symlink ''/lib/libz.so.1'')
       = Some ''cd /var/chroot/raspbian_buster_armhf/lib && sudo ln -fs ../lib/libz.so.1 libz.so''
   \<and> \<not> prefix ''/'' (rel_link_target \<lparr>anchor = ''/'', names = [''var'', ''chroot'', ''raspbian_buster_armhf'', ''lib'', ''libz.so'']\<rparr>
        (Path (readlink (Symlink ''/lib/libz.so.1''))))
   \<and> list_all (\<lambda>(p, y). \<not> eligible p y \<or> \<not> prefix ''/'' (readlink y))
        (rglob_all disk_fixed (Path (chroot_dir @ ''/lib'')))
   \<and> fix_absolute_links \<lparr>exit_status = (\<lambda>tr cmd. 0), disk = (\<lambda>tr. disk_fixed), pw_name = ''pi'',
        dumpspecs = None\<rparr> [] = ([], None)"
proof -
  let ?lz = "\<lparr>anchor = ''/'', names = [''var'', ''chroot'', ''raspbian_buster_armhf'', ''lib'', ''libz.so'']\<rparr>"
  let ?lm = "\<lparr>anchor = ''/'', names = [''var'', ''chroot'', ''raspbian_buster_armhf'', ''lib'', ''modules'']\<rparr>"
  let ?l1 = "\<lparr>anchor = ''/'', names = [''var'', ''chroot'', ''raspbian_buster_armhf'', ''lib'', ''libz.so.1'']\<rparr>"
  let ?e = "\<lparr>exit_status = (\<lambda>tr cmd. 0), disk = (\<lambda>tr. disk_fixed), pw_name = ''pi'', dumpspecs = None\<rparr>"
  have h1: "\<not> prefix ''/'' (readlink (Symlink ''../lib/libz.so.1''))" by simp
  have h2: "\<not> re_match link_name_rx (path_name ?lm)" by code_simp
  have h3: "\<not> is_symlink File" by simp
  have h4: "link_command ?lz (Symlink ''/lib/libz.so.1'')
       = Some ''cd /var/chroot/raspbian_buster_armhf/lib && sudo ln -fs ../lib/libz.so.1 libz.so''"
    by code_simp
  have h5: "list_all (\<lambda>(p, y). \<not> eligible p y \<or> \<not> prefix ''/'' (readlink y))
        (rglob_all disk_fixed (Path (chroot_dir @ ''/lib'')))" by code_simp
  then have h5': "\<forall>(p, y)\<in>set (rglob_all (disk ?e []) (Path (chroot_dir @ ''/lib''))).
          \<not> eligible p y \<or> \<not> prefix ''/'' (readlink y)"
    by (simp add: list_all_iff)
  have c1: "link_command ?lz (Symlink ''../lib/libz.so.1'') = None"
    using h1 relative_and_unmatched_untouched [of "Symlink ''../lib/libz.so.1''" ?lz] by blast
  have c2: "link_command ?lm (Symlink ''/usr/lib/modules'') = None"
    using h2 relative_and_unmatched_untouched [of "Symlink ''/usr/lib/modules''" ?lm] by blast
  have c3: "link_command ?l1 File = None"
    using h3 relative_and_unmatched_untouched [of File ?l1] by blast
  have c4: "\<not> prefix ''/'' (rel_link_target ?lz (Path (readlink (Symlink ''/lib/libz.so.1''))))"
    using h4 relative_and_unmatched_untouched [of "Symlink ''/lib/libz.so.1''" ?lz] by blast
  have c5: "fix_absolute_links ?e [] = ([], None)"
    using h5' relative_and_unmatched_untouched [of _ _ ?e "[]"] by blast
  show ?thesis using h1 h2 h3 h4 h5 c1 c2 c3 c4 c5 by blast
qed

section \<open>Properties: where the symlink fixup looks\<close>

lemma get_node_append:
  "get_node fs (xs @ ys) = (case get_node fs xs of None \<Rightarrow> None | Some m \<Rightarrow> get_node m ys)"
  by (induction xs arbitrary: fs) (auto split: node.splits option.splits)

text \<open>A path of proper names through real directories resolves to itself.\<close>

lemma resolve_real:
  "get_node fs (cur @ xs) = Some (Dir es) \<Longrightarrow> \<forall>x\<in>set xs. proper_name x \<Longrightarrow>
   resolve fuel fs cur xs = Some (cur @ xs)"
proof (induction xs arbitrary: cur)
  case Nil
  then show ?case by simp
next
  case (Cons x xs)
  from Cons.prems(2) have px: "x \<noteq> []" "x \<noteq> ''.''" "x \<noteq> ''..''" by (auto simp: proper_name_def)
  from Cons.prems(1) have g: "get_node fs ((cur @ [x]) @ xs) = Some (Dir es)" by simp
  then obtain m where m: "get_node fs (cur @ [x]) = Some m" "get_node m xs = Some (Dir es)"
    by (subst (asm) get_node_append) (auto split: option.splits)
  have "\<exists>sub. m = Dir sub"
  proof (cases xs)
    case Nil
    with m(2) show ?thesis by simp
  next
    case (Cons y ys)
    with m(2) show ?thesis by (cases m) auto
  qed
  then obtain sub where "m = Dir sub" ..
  with m(1) px Cons.IH [OF g] Cons.prems(2) show ?case by simp
qed

lemma Path_lib:
  "Path (chroot_dir @ ''/lib'') = \<lparr>anchor = ''/'', names = [''var'', ''chroot'', ''raspbian_buster_armhf'', ''lib'']\<rparr>"
  by code_simp

lemma scandir_real_lib:
  assumes "get_node fs [''var'', ''chroot'', ''raspbian_buster_armhf'', ''lib''] = Some (Dir es)"
  shows "scandir fs (Path (chroot_dir @ ''/lib''))
       = Some ([''var'', ''chroot'', ''raspbian_buster_armhf'', ''lib''], es)"
proof -
  have "resolve 40 fs [] [''var'', ''chroot'', ''raspbian_buster_armhf'', ''lib'']
      = Some ([] @ [''var'', ''chroot'', ''raspbian_buster_armhf'', ''lib''])"
    using assms by (intro resolve_real) (auto simp: proper_name_def)
  then show ?thesis using assms by (simp add: scandir_def realpath_def Path_lib)
qed

text \<open>What \<^verbatim>\<open>*\<close> selects does not depend on where the directories really are.\<close>

lemma select_wildcard_subdirs:
  "map select_wildcard (iterate_subdirs p q es) = map select_wildcard (iterate_subdirs p q' es)"
proof (induction p q es arbitrary: q' rule: iterate_subdirs.induct)
  case (1 p q)
  then show ?case by simp
next
  case (2 p q n x es)
  show ?case
  proof (cases x)
    case (Dir sub)
    with "2.IH"(1) [OF Dir, of "q' @ [n]"] "2.IH"(2) [of q'] show ?thesis
      by (simp add: select_wildcard_def)
  next
    case File
    with "2.IH"(2) [of q'] show ?thesis by simp
  next
    case (Symlink t)
    with "2.IH"(2) [of q'] show ?thesis by simp
  qed
qed

lemma rglob_all_scandir:
  assumes "map_option snd (scandir fs start) = map_option snd (scandir fs' start)"
  shows "rglob_all fs start = rglob_all fs' start"
proof (cases "scandir fs start")
  case None
  with assms have "scandir fs' start = None" by simp
  with None show ?thesis by (simp add: rglob_all_def iterate_directories_def)
next
  case (Some a)
  obtain q es where a: "a = (q, es)" by (cases a)
  with Some assms obtain q' where s': "scandir fs' start = Some (q', es)" 
    by (cases "scandir fs' start") auto
  show ?thesis
    using Some a s' select_wildcard_subdirs [of start q es q']
    by (simp add: rglob_all_def iterate_directories_def select_wildcard_def)
qed

lemma in_set_map_filter:
  "y \<in> set (List.map_filter f xs) \<longleftrightarrow> (\<exists>x\<in>set xs. f x = Some y)"
  by (induction xs) (auto split: option.splits)

lemma link_commands_below_lib:
  assumes "cmd \<in> set (link_commands fs)"
  shows "prefix (''cd '' @ chroot_dir @ ''/lib'') cmd"
proof -
  from assms obtain p x where e: "(p, x) \<in> set (rglob_all fs (Path (chroot_dir @ ''/lib'')))"
    and c: "link_command p x = Some cmd"
    by (auto simp: link_commands_def in_set_map_filter)
  from rglob_all_below [OF e] obtain mid n where
    p: "anchor p = ''/''" "names p = [''var'', ''chroot'', ''raspbian_buster_armhf'', ''lib''] @ mid @ [n]"
    by (auto simp: Path_lib)
  have "path_str (parent p) = chroot_dir @ ''/lib'' @ (if mid = [] then [] else CHR ''/'' # join_slash mid)"
    using p join_slash_append [of "[''var'', ''chroot'', ''raspbian_buster_armhf'', ''lib'']" mid]
    by (simp add: path_str_def parent_def butlast_append chroot_dir_def)
  moreover from c have "prefix (''cd '' @ path_str (parent p)) cmd"
    by (auto simp: link_command_eq_Some)
  ultimately show ?thesis by (auto simp: prefix_def)
qed

text \<open>
  C10, as the specification states it: a symbolic link located anywhere but under
  \<^verbatim>\<open>lib\<close>, for example under \<^verbatim>\<open>usr/lib\<close>, is never examined or rewritten. In the chroot
  with merged \<^verbatim>\<open>/usr\<close> the entry \<^verbatim>\<open>lib\<close> is a link to \<^verbatim>\<open>usr/lib\<close>. The only library
  link of that chroot is located in \<^verbatim>\<open>usr/lib\<close>; the traversal of
  \<^verbatim>\<open>/var/chroot/raspbian_buster_armhf/lib\<close> lists the directory \<^verbatim>\<open>usr/lib\<close>, examines that
  link and the fixup runs the command that rewrites it.
\<close>

theorem merged_usr_link_rewritten:
  "get_node disk_merged_usr [''var'', ''chroot'', ''raspbian_buster_armhf'', ''lib'']
     = Some (Symlink ''usr/lib'')
   \<and> get_node disk_merged_usr [''var'', ''chroot'', ''raspbian_buster_armhf'', ''usr'', ''lib'', ''libz.so'']
     = Some (Symlink ''/lib/libz.so.1'')
   \<and> map_option fst (scandir disk_merged_usr (Path (chroot_dir @ ''/lib'')))
     = Some [''var'', ''chroot'', ''raspbian_buster_armhf'', ''usr'', ''lib'']
   \<and> rglob_all disk_merged_usr (Path (chroot_dir @ ''/lib''))
     = [(\<lparr>anchor = ''/'', names = [''var'', ''chroot'', ''raspbian_buster_armhf'', ''lib'', ''libz.so'']\<rparr>,
         Symlink ''/lib/libz.so.1''),
        (\<lparr>anchor = ''/'', names = [''var'', ''chroot'', ''raspbian_buster_armhf'', ''lib'', ''libz.so.1'']\<rparr>,
         File)]
   \<and> link_commands disk_merged_usr
     = [''cd /var/chroot/raspbian_buster_armhf/lib && sudo ln -fs ../lib/libz.so.1 libz.so'']"
  by code_simp

text \<open>
  C10, amended. The fixup traverses only the directory that the path
  \<^verbatim>\<open>/var/chroot/raspbian_buster_armhf/lib\<close> names: every path it examines lies below that
  path, every command it runs changes into that path or a path below it, and the
  commands depend only on the entries of the directory the path resolves to. Where
  \<^verbatim>\<open>lib\<close> is a directory of its own in the chroot, two disks with the same \<^verbatim>\<open>lib\<close>
  give the same examined entries and the same commands, whatever else they hold: a link
  anywhere else in the tree, for example under \<^verbatim>\<open>usr/lib\<close>, is never examined or
  rewritten.
\<close>

theorem fixup_confined_to_lib:
  "(\<forall>(p, x)\<in>set (rglob_all fs (Path (chroot_dir @ ''/lib''))).
      anchor p = ''/'' \<and> strict_prefix [''var'', ''chroot'', ''raspbian_buster_armhf'', ''lib''] (names p))
   \<and> (\<forall>cmd\<in>set (link_commands fs). prefix (''cd '' @ chroot_dir @ ''/lib'') cmd)
   \<and> (map_option snd (scandir fs (Path (chroot_dir @ ''/lib'')))
        = map_option snd (scandir fs' (Path (chroot_dir @ ''/lib'')))
      \<longrightarrow> link_commands fs = link_commands fs')
   \<and> (get_node fs [''var'', ''chroot'', ''raspbian_buster_armhf'', ''lib''] = Some (Dir es)
      \<and> get_node fs' [''var'', ''chroot'', ''raspbian_buster_armhf'', ''lib''] = Some (Dir es)
      \<longrightarrow> rglob_all fs (Path (chroot_dir @ ''/lib'')) = rglob_all fs' (Path (chroot_dir @ ''/lib''))
          \<and> link_commands fs = link_commands fs')"
proof -
  let ?lib = "Path (chroot_dir @ ''/lib'')"
  let ?names = "[''var'', ''chroot'', ''raspbian_buster_armhf'', ''lib'']"
  have one: "anchor p = ''/'' \<and> strict_prefix ?names (names p)"
    if "(p, x) \<in> set (rglob_all fs ?lib)" for p x
  proof -
    from rglob_all_below [OF that] obtain mid n where
      "anchor p = anchor ?lib" "names p = names ?lib @ mid @ [n]" by blast
    then have "anchor p = ''/''" "names p = ?names @ (mid @ [n])"
      by (simp_all only: Path_lib posix_path.simps append_assoc)
    then show ?thesis by (simp add: strict_prefix_def)
  qed
  have two: "\<forall>cmd\<in>set (link_commands fs). prefix (''cd '' @ chroot_dir @ ''/lib'') cmd"
    using link_commands_below_lib by blast
  have three: "link_commands fs = link_commands fs'"
    if "map_option snd (scandir fs ?lib) = map_option snd (scandir fs' ?lib)"
    using rglob_all_scandir [OF that] by (simp only: link_commands_def)
  have four: "rglob_all fs ?lib = rglob_all fs' ?lib \<and> link_commands fs = link_commands fs'"
    if "get_node fs ?names = Some (Dir es) \<and> get_node fs' ?names = Some (Dir es)"
  proof -
    from that have "scandir fs ?lib = Some (?names, es)" "scandir fs' ?lib = Some (?names, es)"
      by (simp_all only: scandir_real_lib)
    then have "map_option snd (scandir fs ?lib) = map_option snd (scandir fs' ?lib)"
      by (simp only:)
    from rglob_all_scandir [OF this] three [OF this] show ?thesis by blast
  qed
  from one have one': "\<forall>(p, x)\<in>set (rglob_all fs ?lib).
      anchor p = ''/'' \<and> strict_prefix ?names (names p)"
    by blast
  show ?thesis using one' two three four by blast
qed

theorem fixup_confined_to_lib_witness:
  "get_node disk_plain_lib [''var'', ''chroot'', ''raspbian_buster_armhf'', ''lib'']
     = Some (Dir [(''libz.so'', Symlink ''/lib/libz.so.1''), (''libz.so.1'', File)])
   \<and> get_node disk_plain_lib_usr [''var'', ''chroot'', ''raspbian_buster_armhf'', ''lib'']
     = Some (Dir [(''libz.so'', Symlink ''/lib/libz.so.1''), (''libz.so.1'', File)])
   \<and> get_node disk_plain_lib_usr [''var'', ''chroot'', ''raspbian_buster_armhf'', ''usr'', ''lib'', ''libm.so'']
     = Some (Symlink ''/lib/libm.so.6'')
   \<and> link_commands disk_plain_lib_usr = link_commands disk_plain_lib
   \<and> link_commands disk_plain_lib_usr
     = [''cd /var/chroot/raspbian_buster_armhf/lib && sudo ln -fs ../lib/libz.so.1 libz.so'']
   \<and> list_all (\<lambda>(p, x). anchor p = ''/''
          \<and> strict_prefix [''var'', ''chroot'', ''raspbian_buster_armhf'', ''lib''] (names p))
        (rglob_all disk_plain_lib_usr (Path (chroot_dir @ ''/lib'')))
   \<and> list_all (prefix (''cd '' @ chroot_dir @ ''/lib'')) (link_commands disk_plain_lib_usr)"
proof -
  have a: "get_node disk_plain_lib [''var'', ''chroot'', ''raspbian_buster_armhf'', ''lib'']
     = Some (Dir [(''libz.so'', Symlink ''/lib/libz.so.1''), (''libz.so.1'', File)])"
    by code_simp
  have b: "get_node disk_plain_lib_usr [''var'', ''chroot'', ''raspbian_buster_armhf'', ''lib'']
     = Some (Dir [(''libz.so'', Symlink ''/lib/libz.so.1''), (''libz.so.1'', File)])"
    by code_simp
  have c: "get_node disk_plain_lib_usr [''var'', ''chroot'', ''raspbian_buster_armhf'', ''usr'', ''lib'', ''libm.so'']
     = Some (Symlink ''/lib/libm.so.6'')"
    by code_simp
  have d: "link_commands disk_plain_lib
     = [''cd /var/chroot/raspbian_buster_armhf/lib && sudo ln -fs ../lib/libz.so.1 libz.so'']"
    by code_simp
  note t = fixup_confined_to_lib [of disk_plain_lib_usr disk_plain_lib
      "[(''libz.so'', Symlink ''/lib/libz.so.1''), (''libz.so.1'', File)]"]
  from t a b have e: "link_commands disk_plain_lib_usr = link_commands disk_plain_lib" by blast
  from t have f: "list_all (\<lambda>(p, x). anchor p = ''/''
          \<and> strict_prefix [''var'', ''chroot'', ''raspbian_buster_armhf'', ''lib''] (names p))
        (rglob_all disk_plain_lib_usr (Path (chroot_dir @ ''/lib'')))"
    unfolding list_all_iff by blast
  from t have g: "list_all (prefix (''cd '' @ chroot_dir @ ''/lib'')) (link_commands disk_plain_lib_usr)"
    unfolding list_all_iff by blast
  show ?thesis using a b c d e f g by simp
qed

section \<open>Properties: the relativizer\<close>

text \<open>
  C2, as the specification states it: the link
  \<^verbatim>\<open>/var/chroot/raspbian_buster_armhf/lib/arm-linux-gnueabihf/libc.so\<close> with the target
  \<^verbatim>\<open>/lib/arm-linux-gnueabihf/libc.so.6\<close> would get the new target \<^verbatim>\<open>../libc.so.6\<close>.
  It does not.
\<close>

theorem libc_target_not_sibling:
  "rel_link_target
     \<lparr>anchor = ''/'', names = [''var'', ''chroot'', ''raspbian_buster_armhf'', ''lib'',
        ''arm-linux-gnueabihf'', ''libc.so'']\<rparr>
     (Path ''/lib/arm-linux-gnueabihf/libc.so.6'') \<noteq> ''../libc.so.6''"
  by code_simp

text \<open>
  C2, amended: for that link the relativizer produces
  \<^verbatim>\<open>../../lib/arm-linux-gnueabihf/libc.so.6\<close>: one \<^verbatim>\<open>../\<close> for each of the two
  directories between the chroot and the link, then the old target without its slash.
\<close>

theorem libc_target_from_root:
  "rel_link_target
     \<lparr>anchor = ''/'', names = [''var'', ''chroot'', ''raspbian_buster_armhf'', ''lib'',
        ''arm-linux-gnueabihf'', ''libc.so'']\<rparr>
     (Path ''/lib/arm-linux-gnueabihf/libc.so.6'') = ''../../lib/arm-linux-gnueabihf/libc.so.6''"
  by code_simp

text \<open>
  C7, as the specification states it: the new target is \<^verbatim>\<open>../\<close> once for each directory
  between the chroot and the link, followed by the old target without its leading slash.
  For the link \<^verbatim>\<open>lib/libz.so\<close> with the target \<^verbatim>\<open>/lib//libz.so.1\<close> that would be
  \<^verbatim>\<open>../lib//libz.so.1\<close>; the code writes \<^verbatim>\<open>../lib/libz.so.1\<close>, since the target goes
  through \<^verbatim>\<open>Path\<close> and is printed again before its slashes are stripped.
\<close>

theorem rel_link_target_double_slash:
  "rel_link_target
     \<lparr>anchor = ''/'', names = [''var'', ''chroot'', ''raspbian_buster_armhf'', ''lib'', ''libz.so'']\<rparr>
     (Path ''/lib//libz.so.1'')
   = ''../lib/libz.so.1''
   \<and> rel_link_target
     \<lparr>anchor = ''/'', names = [''var'', ''chroot'', ''raspbian_buster_armhf'', ''lib'', ''libz.so'']\<rparr>
     (Path ''/lib//libz.so.1'')
   \<noteq> concat (replicate 1 ''../'') @ tl ''/lib//libz.so.1''"
  by code_simp

text \<open>
  C7, amended. For a link below the chroot, at the directories \<open>ds\<close> and with the name
  \<open>n\<close>, whose path below the chroot does not contain the chroot's path again: the new
  target is \<^verbatim>\<open>../\<close> repeated once for each directory of \<open>ds\<close>, followed by the old target
  as pathlib prints it, without its leading slashes. For an old target that is written
  as one slash and proper names separated by single slashes, this is the old target
  without its slash.
\<close>

theorem rel_link_target_formula:
  assumes "\<forall>c\<in>set (ds @ [n]). proper_name c"
    and "\<not> sublist chroot_dir (CHR ''/'' # join_slash (ds @ [n]))"
  shows "rel_link_target
           \<lparr>anchor = ''/'', names = [''var'', ''chroot'', ''raspbian_buster_armhf''] @ ds @ [n]\<rparr> (Path t)
         = concat (replicate (length ds) ''../'') @ lstrip_slash (path_str (Path t))
       \<and> (\<forall>cs. (\<forall>c\<in>set cs. proper_name c) \<longrightarrow>
            rel_link_target
              \<lparr>anchor = ''/'', names = [''var'', ''chroot'', ''raspbian_buster_armhf''] @ ds @ [n]\<rparr>
              (Path (CHR ''/'' # join_slash cs))
            = concat (replicate (length ds) ''../'') @ join_slash cs)"
proof -
  have a: "rel_link_target
           \<lparr>anchor = ''/'', names = [''var'', ''chroot'', ''raspbian_buster_armhf''] @ ds @ [n]\<rparr> lt
         = concat (replicate (length ds) ''../'') @ lstrip_slash (path_str lt)" for lt
    by (rule rel_link_target_below_chroot [OF assms])
  have b: "lstrip_slash (path_str (Path (CHR ''/'' # join_slash cs))) = join_slash cs"
    if "\<forall>c\<in>set cs. proper_name c" for cs
  proof -
    from that have "\<forall>c\<in>set cs. c \<noteq> [] \<and> CHR ''/'' \<notin> set c" by (simp add: proper_name_def)
    from lstrip_slash_join [OF this] show ?thesis
      by (simp add: path_str_Path_rooted [OF that] lstrip_slash_def)
  qed
  show ?thesis using a b by simp
qed

theorem rel_link_target_formula_witness:
  "list_all proper_name ([''lib'', ''arm-linux-gnueabihf''] @ [''libc.so''])
   \<and> \<not> sublist chroot_dir (CHR ''/'' # join_slash ([''lib'', ''arm-linux-gnueabihf''] @ [''libc.so'']))
   \<and> list_all proper_name [''lib'', ''arm-linux-gnueabihf'', ''libc.so.6'']
   \<and> rel_link_target
        \<lparr>anchor = ''/'', names = [''var'', ''chroot'', ''raspbian_buster_armhf'', ''lib'', ''arm-linux-gnueabihf'', ''libc.so'']\<rparr>
        (Path ''/lib/arm-linux-gnueabihf/libc.so.6'')
      = ''../../lib/arm-linux-gnueabihf/libc.so.6''"
proof -
  have h1: "list_all proper_name ([''lib'', ''arm-linux-gnueabihf''] @ [''libc.so''])"
    by (simp add: proper_name_def)
  have h2: "\<not> sublist chroot_dir (CHR ''/'' # join_slash ([''lib'', ''arm-linux-gnueabihf''] @ [''libc.so'']))"
    by code_simp
  have h3: "list_all proper_name [''lib'', ''arm-linux-gnueabihf'', ''libc.so.6'']"
    by (simp add: proper_name_def)
  from h1 have h1': "\<forall>c\<in>set ([''lib'', ''arm-linux-gnueabihf''] @ [''libc.so'']). proper_name c"
    by (simp only: list_all_iff)
  from h3 have h3': "\<forall>c\<in>set [''lib'', ''arm-linux-gnueabihf'', ''libc.so.6'']. proper_name c"
    by (simp only: list_all_iff)
  from rel_link_target_formula [OF h1' h2] h3'
  have "rel_link_target
      \<lparr>anchor = ''/'', names = [''var'', ''chroot'', ''raspbian_buster_armhf''] @ [''lib'', ''arm-linux-gnueabihf''] @ [''libc.so'']\<rparr>
      (Path (CHR ''/'' # join_slash [''lib'', ''arm-linux-gnueabihf'', ''libc.so.6'']))
    = concat (replicate (length [''lib'', ''arm-linux-gnueabihf'']) ''../'')
      @ join_slash [''lib'', ''arm-linux-gnueabihf'', ''libc.so.6'']"
    by blast
  then have "rel_link_target
        \<lparr>anchor = ''/'', names = [''var'', ''chroot'', ''raspbian_buster_armhf'', ''lib'', ''arm-linux-gnueabihf'', ''libc.so'']\<rparr>
        (Path ''/lib/arm-linux-gnueabihf/libc.so.6'')
      = ''../../lib/arm-linux-gnueabihf/libc.so.6''"
    by (simp add: numeral_2_eq_2)
  with h1 h2 h3 show ?thesis by blast
qed

text \<open>
  C1 at a link whose path contains the chroot's path a second time: the link
  \<^verbatim>\<open>lib/var/chroot/raspbian_buster_armhf/libx.so\<close> of the chroot with the target
  \<^verbatim>\<open>/lib/libx.so.1\<close>. \<^verbatim>\<open>str.replace\<close> removes both occurrences, one \<^verbatim>\<open>../\<close> is written
  where four are needed, and the new target, read from the link's directory, denotes
  \<^verbatim>\<open>lib/var/chroot/lib/libx.so.1\<close> of the chroot; the old target denoted
  \<^verbatim>\<open>lib/libx.so.1\<close> of the chroot. (For every other link the two agree:
  \<open>relativized_target_same_file\<close>.)
\<close>

theorem embedded_root_wrong_target:
  "rel_link_target
     \<lparr>anchor = ''/'', names = [''var'', ''chroot'', ''raspbian_buster_armhf'', ''lib'',
                               ''var'', ''chroot'', ''raspbian_buster_armhf'', ''libx.so'']\<rparr>
     (Path ''/lib/libx.so.1'') = ''../lib/libx.so.1''
   \<and> normpath ([''var'', ''chroot'', ''raspbian_buster_armhf'', ''lib'',
                 ''var'', ''chroot'', ''raspbian_buster_armhf''] @ split_slash ''../lib/libx.so.1'')
       = [''var'', ''chroot'', ''raspbian_buster_armhf'', ''lib'', ''var'', ''chroot'', ''lib'', ''libx.so.1'']
   \<and> normpath ([''var'', ''chroot'', ''raspbian_buster_armhf''] @ split_slash ''/lib/libx.so.1'')
       = [''var'', ''chroot'', ''raspbian_buster_armhf'', ''lib'', ''libx.so.1'']"
  by code_simp

end
